theory Spec2Isabelle
  imports Complex_Main "HOL-Library.Sublist" "HOL-Library.AList"
begin

section \<open>AgentContainerManager: data model\<close>

text \<open>
  A shallow embedding of \<^verbatim>\<open>src/agent-container-manager.ts\<close>.

  The manager is asynchronous: a public method runs synchronously up to its first
  \<^verbatim>\<open>await\<close>, and the rest of its body runs later, when the awaited promise settles.
  The embedding makes every such piece one atomic function on the manager state, and
  an \<open>event\<close> names the piece that runs next (a public call, or the continuation of a
  suspended one). External collaborators (\<^verbatim>\<open>createRuntime\<close>, the runtime's
  \<^verbatim>\<open>execute\<close>/\<^verbatim>\<open>runFile\<close>, the package manager, abort signals, timers, the clock)
  are the environment: what they answer is a parameter of the event. The events the
  manager emits are recorded in a log; their listeners are not modelled.

  Objects of type \<^verbatim>\<open>ManagedContainer\<close> live in a heap (a list indexed by address);
  the registry \<^verbatim>\<open>Map<string, ManagedContainer>\<close> maps an id to an address and keeps
  insertion order. The closures of queued operations hold the object, not the id,
  so an object can outlive its registry entry.
\<close>

datatype status = Creating | Ready | Busy | Errored | Terminating | Terminated

datatype runtime_mode = Worker | Sandbox | MainThread

datatype op_name = Execute | RunFile | Install

text \<open>A JavaScript number, as far as \<^verbatim>\<open>Number.isFinite\<close> and comparisons see it.\<close>

datatype jsnum = Fin real | PosInf | NegInf | NaN

fun isFinite :: "jsnum \<Rightarrow> bool" where
  "isFinite (Fin _) = True"
| "isFinite _ = False"

fun js_lt :: "jsnum \<Rightarrow> jsnum \<Rightarrow> bool" where
  "js_lt NaN _ = False"
| "js_lt _ NaN = False"
| "js_lt (Fin a) (Fin b) = (a < b)"
| "js_lt (Fin _) PosInf = True"
| "js_lt (Fin _) NegInf = False"
| "js_lt PosInf _ = False"
| "js_lt NegInf NegInf = False"
| "js_lt NegInf _ = True"

definition js_gt :: "jsnum \<Rightarrow> jsnum \<Rightarrow> bool" where
  "js_gt a b = js_lt b a"

definition js_ge :: "jsnum \<Rightarrow> jsnum \<Rightarrow> bool" where
  "js_ge a b = (a \<noteq> NaN \<and> b \<noteq> NaN \<and> \<not> js_lt a b)"

text \<open>
  Modelled from the spec: the runtime handle of \<^verbatim>\<open>./create-runtime\<close> (not under src/), a
  black box with \<^verbatim>\<open>execute\<close>, \<^verbatim>\<open>runFile\<close> and \<^verbatim>\<open>terminate\<close>. The manager reads two things
  of it: which class it is an instance of (\<^verbatim>\<open>detectRuntimeMode\<close>), and whether its
  \<^verbatim>\<open>terminate\<close> throws (\<open>Some message\<close>) or returns.
\<close>

datatype runtime = Runtime (rt_class: runtime_mode) (rt_terminate: "string option")

text \<open>
  Modelled from the spec: the filesystem of \<^verbatim>\<open>./virtual-fs\<close> (not under src/):
  constructible from a snapshot or empty, written file by file, and able to produce
  a snapshot of its full content. Content and snapshot are a list of path and text.
\<close>

type_synonym vfs = "(string \<times> string) list"

definition writeFileSync :: "string \<Rightarrow> string \<Rightarrow> vfs \<Rightarrow> vfs" where
  "writeFileSync path content fs = AList.update path content fs"

definition fromSnapshot :: "vfs \<Rightarrow> vfs" where
  "fromSnapshot snap = snap"

definition toSnapshot :: "vfs \<Rightarrow> vfs" where
  "toSnapshot fs = fs"

type_synonym val = string

datatype use_worker = UseWorkerAuto | UseWorkerBool bool

record create_runtime_options =
  cwd :: "string option"
  env :: "(string \<times> string) list option"
  sandbox :: "string option"
  useWorker :: "use_worker option"
  dangerouslyAllowSameOrigin :: "bool option"

record spawn_options =
  sp_id :: "string option"
  sp_cwd :: "string option"
  sp_env :: "(string \<times> string) list option"
  sp_runtime :: "create_runtime_options option"
  sp_npmCwd :: "string option"
  sp_metadata :: "(string \<times> string) list option"
  sp_vfsSnapshot :: "vfs option"
  sp_files :: "(string \<times> string) list option"

text \<open>The signal of an operation is named by a number; the manager state records which
  signals have fired.\<close>

record op_options =
  timeoutMs :: "jsnum option"
  signal :: "nat option"

text \<open>
  Errors, by kind. The context string of a timeout or abort error,
  \<^verbatim>\<open>`${operation} on container '${id}'`\<close>, is kept as its two parts; an error thrown by the
  external work is kept by its message. \<^verbatim>\<open>errorToMessage\<close> is not modelled: where the
  source stores the message of an error (\<^verbatim>\<open>lastError\<close>), the model stores the error.
\<close>

datatype error =
    CapacityReached jsnum
  | AlreadyExists string
  | ConstructionError string
  | NotFound string
  | IsFinalizing string status
  | RuntimeNotInitialized string
  | NpmNotInitialized string
  | OperationTimeoutError op_name string real
  | OperationAbortedError op_name string bool
  | WorkError string

fun is_timeout :: "error \<Rightarrow> bool" where
  "is_timeout (OperationTimeoutError _ _ _) = True"
| "is_timeout _ = False"

fun is_aborted :: "error \<Rightarrow> bool" where
  "is_aborted (OperationAbortedError _ _ _) = True"
| "is_aborted _ = False"

text \<open>
  The promise chain \<^verbatim>\<open>container.queue\<close>. Every \<^verbatim>\<open>enqueue\<close> and every \<^verbatim>\<open>terminate\<close>
  chains one more task with \<^verbatim>\<open>queue.then(run, run)\<close>; a task starts when the one before
  it has settled. The chain is the tasks not yet started (\<open>queue\<close>), the operation
  whose \<^verbatim>\<open>run\<close> is suspended at \<^verbatim>\<open>await this.runWithControls(...)\<close> (\<open>current\<close>), and
  the number of tasks that have settled (\<open>completed\<close>). A task is named by its
  position in the chain.
\<close>

datatype task = OpTask nat op_name op_options | FinalizeTask

fun is_op :: "task \<Rightarrow> bool" where
  "is_op (OpTask _ _ _) = True"
| "is_op FinalizeTask = False"

text \<open>
  The state of one \<^verbatim>\<open>runWithControls\<close> promise: \<open>timer\<close> is \<^verbatim>\<open>timeoutHandle\<close> (the
  armed duration), \<open>listening\<close> says that \<^verbatim>\<open>onAbort\<close> is registered on the signal, and
  \<open>settled\<close> is the outcome the promise settled with (\<open>None\<close> while pending).
\<close>

record inflight =
  op_ticket :: nat
  op_kind :: op_name
  op_opts :: op_options
  startedAt :: int
  timer :: "real option"
  listening :: bool
  settled :: "(error + val) option"

text \<open>
  \<^verbatim>\<open>ManagedContainer\<close>. \<open>awaitingRuntime\<close> is the suspended \<^verbatim>\<open>spawn\<close> call (with the
  \<^verbatim>\<open>cwd\<close> its package manager will get), if it has not resumed yet. The last four
  fields are not in the source; they record what happened: the operations in
  submission order, the ones whose \<^verbatim>\<open>run\<close> has been entered, the ones whose \<^verbatim>\<open>run\<close> has
  returned or thrown (with their options and outcome), and the external work that
  was started and has not finished.
\<close>

record managed_container =
  cid :: string
  status :: status
  runtimeMode :: runtime_mode
  runtimeOptions :: create_runtime_options
  vfs :: vfs
  runtime :: "runtime option"
  npm :: "string option"
  metadata :: "(string \<times> string) list option"
  createdAt :: int
  updatedAt :: int
  lastUsedAt :: int
  activeOperations :: int
  pendingOperations :: int
  queue :: "task list"
  current :: "inflight option"
  completed :: nat
  lastError :: "error option"
  awaitingRuntime :: "string option"
  submitted :: "nat list"
  begun :: "nat list"
  ended :: "(nat \<times> op_options \<times> (error + val)) list"
  working :: "nat list"

record agent_container_info =
  info_id :: string
  info_status :: status
  info_runtimeMode :: runtime_mode
  info_createdAt :: int
  info_updatedAt :: int
  info_lastUsedAt :: int
  info_activeOperations :: int
  info_pendingOperations :: int
  info_lastError :: "error option"
  info_metadata :: "(string \<times> string) list option"

record metrics =
  containersCreated :: nat
  containersTerminated :: nat
  operationsStarted :: nat
  operationsSucceeded :: nat
  operationsFailed :: nat
  operationTimeouts :: nat
  operationAborted :: nat

datatype emitted =
    ContainerCreated string
  | ContainerReady string
  | ContainerError string string string
  | ContainerStatus string status status int
  | OperationStart string op_name int int
  | OperationEnd string op_name int bool int
  | ContainerTerminated string
  | ContainerEvicted string

text \<open>What a call of \<^verbatim>\<open>terminate\<close> is worth: a boolean at once, or a promise of the
  chain of a container: \<open>TTask a n\<close> resolves to true once the first \<open>n\<close> tasks of the
  chain of \<open>a\<close> have settled, \<open>TQueue a n k\<close> then resolves to
  \<^verbatim>\<open>!this.containers.has(k)\<close>.\<close>

datatype terminate_reply = TDone bool | TTask nat nat | TQueue nat nat string

text \<open>
  The manager. \<open>clock\<close> and \<open>ticks\<close> are the \<^verbatim>\<open>now\<close> hook (the reading of each call, and
  the number of calls so far), \<open>idGenerator\<close> and \<open>seq\<close> the id generator in the same
  way. \<open>idleSweepTimer\<close> is the threshold the sweep timer was installed with.
  \<open>sweepWait\<close> is the suspended \<^verbatim>\<open>evictIdleContainers\<close>: the \<^verbatim>\<open>terminate\<close> it awaits, the
  id it was called on, and the candidates still to do.
\<close>

record manager =
  heap :: "managed_container list"
  containers :: "(string \<times> nat) list"
  maxContainers :: jsnum
  defaultExecutionTimeoutMs :: jsnum
  defaultRuntimeOptions :: create_runtime_options
  clock :: "nat \<Rightarrow> int"
  ticks :: nat
  idGenerator :: "nat \<Rightarrow> string"
  seq :: nat
  idleSweepTimer :: "int option"
  idleSweepRunning :: bool
  sweepWait :: "(terminate_reply \<times> string \<times> string list) option"
  metricsBase :: metrics
  abortedSignals :: "nat list"
  events :: "emitted list"


section \<open>Construction and helpers\<close>

record manager_options =
  o_maxContainers :: "jsnum option"
  o_defaultExecutionTimeoutMs :: "jsnum option"
  o_runtime :: "create_runtime_options option"
  o_idleTtlMs :: "int option"
  o_idPrefix :: "string option"
  o_idGenerator :: "(nat \<Rightarrow> string) option"
  o_now :: "nat \<Rightarrow> int"

definition DEFAULT_TIMEOUT_MS :: jsnum where
  "DEFAULT_TIMEOUT_MS = Fin 30000"

text \<open>\<^verbatim>\<open>x ?? y\<close> on optional values.\<close>

definition nullish :: "'a option \<Rightarrow> 'a option \<Rightarrow> 'a option" where
  "nullish x y = (case x of Some v \<Rightarrow> Some v | None \<Rightarrow> y)"

text \<open>\<^verbatim>\<open>!x\<close> for an optional string and an optional boolean.\<close>

definition falsy_string :: "string option \<Rightarrow> bool" where
  "falsy_string x = (x = None \<or> x = Some [])"

definition falsy_bool :: "bool option \<Rightarrow> bool" where
  "falsy_bool x = (x = None \<or> x = Some False)"

text \<open>The two defaults the constructor and \<^verbatim>\<open>resolveRuntimeOptions\<close> both apply.\<close>

definition allow_same_origin :: "create_runtime_options \<Rightarrow> create_runtime_options" where
  "allow_same_origin r =
     (if falsy_string (sandbox r) \<and> falsy_bool (dangerouslyAllowSameOrigin r)
      then r\<lparr>dangerouslyAllowSameOrigin := Some True\<rparr> else r)"

definition worker_auto :: "create_runtime_options \<Rightarrow> create_runtime_options" where
  "worker_auto r =
     (if falsy_string (sandbox r) \<and> useWorker r = None
      then r\<lparr>useWorker := Some UseWorkerAuto\<rparr> else r)"

definition empty_runtime_options :: create_runtime_options where
  "empty_runtime_options =
     \<lparr>cwd = None, env = None, sandbox = None, useWorker = None,
      dangerouslyAllowSameOrigin = None\<rparr>"

text \<open>Decimal digits of a number, for the default id generator
  \<^verbatim>\<open>`${prefix}-${++seq}`\<close>.\<close>

function string_of_nat :: "nat \<Rightarrow> string" where
  "string_of_nat n =
     (if n < 10 then [''0123456789'' ! n]
      else string_of_nat (n div 10) @ [''0123456789'' ! (n mod 10)])"
  by pat_completeness auto
termination
  by (relation "measure (\<lambda>n. n)") auto

definition default_idGenerator :: "string \<Rightarrow> nat \<Rightarrow> string" where
  "default_idGenerator pfx calls = pfx @ ''-'' @ string_of_nat (Suc calls)"

text \<open>The interval of the sweep timer. The model has no real time: the timer is an
  event that may happen at any moment while the timer is installed.\<close>

definition sweepMs :: "int \<Rightarrow> int" where
  "sweepMs idleTtlMs = max 2000 (min 30000 (idleTtlMs div 2))"

definition empty_metrics :: metrics where
  "empty_metrics =
     \<lparr>containersCreated = 0, containersTerminated = 0, operationsStarted = 0,
      operationsSucceeded = 0, operationsFailed = 0, operationTimeouts = 0,
      operationAborted = 0\<rparr>"

definition new_manager :: "manager_options \<Rightarrow> manager" where
  "new_manager options =
     \<lparr>heap = [],
      containers = [],
      maxContainers = (case o_maxContainers options of Some n \<Rightarrow> n | None \<Rightarrow> PosInf),
      defaultExecutionTimeoutMs =
        (case o_defaultExecutionTimeoutMs options of Some t \<Rightarrow> t | None \<Rightarrow> DEFAULT_TIMEOUT_MS),
      defaultRuntimeOptions =
        allow_same_origin (worker_auto
          (case o_runtime options of Some r \<Rightarrow> r | None \<Rightarrow> empty_runtime_options)),
      clock = o_now options,
      ticks = 0,
      idGenerator =
        (case o_idGenerator options of Some g \<Rightarrow> g
         | None \<Rightarrow> default_idGenerator
             (case o_idPrefix options of Some p \<Rightarrow> p | None \<Rightarrow> ''container'')),
      seq = 0,
      idleSweepTimer =
        (case o_idleTtlMs options of Some ttl \<Rightarrow> if ttl > 0 then Some ttl else None
         | None \<Rightarrow> None),
      idleSweepRunning = False,
      sweepWait = None,
      metricsBase = empty_metrics,
      abortedSignals = [],
      events = []\<rparr>"

definition now :: "manager \<Rightarrow> int \<times> manager" where
  "now m = (clock m (ticks m), m\<lparr>ticks := Suc (ticks m)\<rparr>)"

definition emit :: "emitted \<Rightarrow> manager \<Rightarrow> manager" where
  "emit e m = m\<lparr>events := events m @ [e]\<rparr>"

text \<open>A write to the object at address \<open>a\<close>.\<close>

definition upd :: "nat \<Rightarrow> (managed_container \<Rightarrow> managed_container) \<Rightarrow> manager \<Rightarrow> manager" where
  "upd a f m = m\<lparr>heap := (heap m)[a := f (heap m ! a)]\<rparr>"

definition containers_get :: "manager \<Rightarrow> string \<Rightarrow> nat option" where
  "containers_get m k = map_of (containers m) k"

definition containers_delete :: "string \<Rightarrow> manager \<Rightarrow> manager" where
  "containers_delete k m = m\<lparr>containers := AList.delete k (containers m)\<rparr>"

definition bump :: "(metrics \<Rightarrow> metrics) \<Rightarrow> manager \<Rightarrow> manager" where
  "bump f m = m\<lparr>metricsBase := f (metricsBase m)\<rparr>"

definition isFinalizingStatus :: "status \<Rightarrow> bool" where
  "isFinalizingStatus st = (st = Terminating \<or> st = Terminated)"

text \<open>The number of tasks chained on \<^verbatim>\<open>container.queue\<close> so far.\<close>

definition chained :: "managed_container \<Rightarrow> nat" where
  "chained c =
     completed c + (case current c of None \<Rightarrow> 0 | Some _ \<Rightarrow> 1) + length (queue c)"

definition toInfo :: "managed_container \<Rightarrow> agent_container_info" where
  "toInfo c =
     \<lparr>info_id = cid c, info_status = status c, info_runtimeMode = runtimeMode c,
      info_createdAt = createdAt c, info_updatedAt = updatedAt c,
      info_lastUsedAt = lastUsedAt c, info_activeOperations = activeOperations c,
      info_pendingOperations = pendingOperations c, info_lastError = lastError c,
      info_metadata = metadata c\<rparr>"

definition setStatus :: "nat \<Rightarrow> status \<Rightarrow> manager \<Rightarrow> manager" where
  "setStatus a st m =
     (if status (heap m ! a) = st then m
      else
        let previous = status (heap m ! a);
            (t, m1) = now m
        in emit (ContainerStatus (cid (heap m ! a)) previous st t)
             (upd a (\<lambda>c. c\<lparr>status := st, updatedAt := t\<rparr>) m1))"

definition detectRuntimeMode :: "runtime \<Rightarrow> runtime_mode" where
  "detectRuntimeMode rt =
     (if rt_class rt = Sandbox then Sandbox
      else if rt_class rt = Worker then Worker
      else MainThread)"

definition resolveRuntimeOptions :: "manager \<Rightarrow> spawn_options \<Rightarrow> create_runtime_options" where
  "resolveRuntimeOptions m options =
     (let d = defaultRuntimeOptions m;
          ov = (case sp_runtime options of Some r \<Rightarrow> r | None \<Rightarrow> empty_runtime_options);
          objenv = (\<lambda>e. case e of Some xs \<Rightarrow> xs | None \<Rightarrow> []);
          merged =
            \<lparr>cwd = nullish (cwd ov) (nullish (sp_cwd options) (cwd d)),
             env = Some (fold (\<lambda>(k, v). AList.update k v)
                     (objenv (sp_env options) @ objenv (env ov)) (objenv (env d))),
             sandbox = nullish (sandbox ov) (sandbox d),
             useWorker = nullish (useWorker ov) (useWorker d),
             dangerouslyAllowSameOrigin =
               nullish (dangerouslyAllowSameOrigin ov) (dangerouslyAllowSameOrigin d)\<rparr>
      in worker_auto (allow_same_origin merged))"

section \<open>The public operations\<close>

subsection \<open>spawn\<close>

text \<open>
  \<^verbatim>\<open>spawn\<close> up to \<^verbatim>\<open>await createRuntime(vfs, runtimeOptions)\<close>. It answers an error at
  once, or the address of the new object, whose \<open>awaitingRuntime\<close> says that the
  call is suspended.
\<close>

definition spawn :: "spawn_options \<Rightarrow> manager \<Rightarrow> (error + nat) \<times> manager" where
  "spawn options m =
     (if js_ge (Fin (real (length (containers m)))) (maxContainers m)
      then (Inl (CapacityReached (maxContainers m)), m)
      else
        let (k, m1) = (case sp_id options of Some k \<Rightarrow> (k, m)
                       | None \<Rightarrow> (idGenerator m (seq m), m\<lparr>seq := Suc (seq m)\<rparr>))
        in if containers_get m1 k \<noteq> None then (Inl (AlreadyExists k), m1)
           else
             let (t, m2) = now m1;
                 fs0 = (case sp_vfsSnapshot options of Some s \<Rightarrow> fromSnapshot s | None \<Rightarrow> []);
                 fs = (case sp_files options of
                         Some files \<Rightarrow> fold (\<lambda>(p, content). writeFileSync p content) files fs0
                       | None \<Rightarrow> fs0);
                 ropts = resolveRuntimeOptions m2 options;
                 a = length (heap m2);
                 c = \<lparr>cid = k, status = Creating, runtimeMode = MainThread,
                      runtimeOptions = ropts, vfs = fs, runtime = None, npm = None,
                      metadata = sp_metadata options, createdAt = t, updatedAt = t,
                      lastUsedAt = t, activeOperations = 0, pendingOperations = 0,
                      queue = [], current = None, completed = 0, lastError = None,
                      awaitingRuntime =
                        Some (case nullish (sp_npmCwd options) (cwd ropts) of
                                Some d \<Rightarrow> d | None \<Rightarrow> ''/''),
                      submitted = [], begun = [], ended = [], working = []\<rparr>
             in (Inr a,
                 emit (ContainerCreated k)
                   (bump (\<lambda>b. b\<lparr>containersCreated := containersCreated b + 1\<rparr>)
                      (m2\<lparr>heap := heap m2 @ [c],
                          containers := AList.update k a (containers m2)\<rparr>))))"

text \<open>
  What \<^verbatim>\<open>await createRuntime\<close> and the rest of the \<^verbatim>\<open>try\<close> block come to: a runtime, a
  rejection of \<^verbatim>\<open>createRuntime\<close>, or a runtime and then an exception of the
  \<^verbatim>\<open>PackageManager\<close> constructor.
\<close>

datatype construct_outcome =
    Constructed runtime
  | ConstructFailed string
  | PackageManagerFailed runtime string

text \<open>The \<^verbatim>\<open>catch\<close> block of \<^verbatim>\<open>spawn\<close>. When \<^verbatim>\<open>runtime.terminate()\<close> throws there, the
  \<^verbatim>\<open>finally\<close> still deletes the record and the error of \<^verbatim>\<open>terminate\<close> is the one that
  propagates.\<close>

definition spawn_catch :: "nat \<Rightarrow> string \<Rightarrow> manager \<Rightarrow> error \<times> manager" where
  "spawn_catch a msg m =
     (let m1 = upd a (\<lambda>c. c\<lparr>lastError := Some (ConstructionError msg)\<rparr>) m;
          m2 = setStatus a Errored m1;
          c = heap m2 ! a;
          m3 = emit (ContainerError (cid c) ''spawn'' msg) m2;
          m4 = containers_delete (cid c) m3
      in case runtime c of
           Some (Runtime _ (Some tmsg)) \<Rightarrow> (ConstructionError tmsg, m4)
         | _ \<Rightarrow> (ConstructionError msg, m4))"

text \<open>\<^verbatim>\<open>spawn\<close> from \<^verbatim>\<open>await createRuntime\<close> on. \<open>None\<close>: no \<^verbatim>\<open>spawn\<close> is suspended on
  this object.\<close>

definition spawn_resume ::
  "nat \<Rightarrow> construct_outcome \<Rightarrow> manager \<Rightarrow> (error + agent_container_info) option \<times> manager" where
  "spawn_resume a outcome m =
     (case awaitingRuntime (heap m ! a) of
        None \<Rightarrow> (None, m)
      | Some npmCwd \<Rightarrow>
          let m0 = upd a (\<lambda>c. c\<lparr>awaitingRuntime := None\<rparr>) m
          in case outcome of
               Constructed rt \<Rightarrow>
                 let m1 = upd a (\<lambda>c. c\<lparr>runtime := Some rt,
                                        runtimeMode := detectRuntimeMode rt,
                                        npm := Some npmCwd\<rparr>) m0;
                     m2 = setStatus a Ready m1;
                     m3 = emit (ContainerReady (cid (heap m2 ! a))) m2
                 in (Some (Inr (toInfo (heap m3 ! a))), m3)
             | ConstructFailed msg \<Rightarrow>
                 (let (e, m1) = spawn_catch a msg m0 in (Some (Inl e), m1))
             | PackageManagerFailed rt msg \<Rightarrow>
                 (let m1 = upd a (\<lambda>c. c\<lparr>runtime := Some rt,
                                         runtimeMode := detectRuntimeMode rt\<rparr>) m0;
                      (e, m2) = spawn_catch a msg m1
                  in (Some (Inl e), m2)))"

subsection \<open>get, list, getMetrics\<close>

definition get :: "manager \<Rightarrow> string \<Rightarrow> agent_container_info option" where
  "get m k = (case containers_get m k of Some a \<Rightarrow> Some (toInfo (heap m ! a)) | None \<Rightarrow> None)"

text \<open>\<^verbatim>\<open>list()\<close>: the registry's values in insertion order, sorted (stably) by
  \<^verbatim>\<open>createdAt\<close>.\<close>

definition list_infos :: "manager \<Rightarrow> agent_container_info list" where
  "list_infos m =
     sort_key info_createdAt (map (\<lambda>p. toInfo (heap m ! snd p)) (containers m))"

definition getMetrics :: "manager \<Rightarrow> metrics \<times> nat \<times> int" where
  "getMetrics m =
     (metricsBase m, length (containers m),
      sum_list (map (\<lambda>p. activeOperations (heap m ! snd p)) (containers m)))"

subsection \<open>requireContainer, snapshot, clone\<close>

definition requireContainer :: "manager \<Rightarrow> string \<Rightarrow> error + nat" where
  "requireContainer m k =
     (case containers_get m k of
        None \<Rightarrow> Inl (NotFound k)
      | Some a \<Rightarrow>
          if status (heap m ! a) = Terminated \<or> status (heap m ! a) = Terminating
          then Inl (IsFinalizing k (status (heap m ! a)))
          else Inr a)"

definition snapshot :: "string \<Rightarrow> manager \<Rightarrow> (error + vfs) \<times> manager" where
  "snapshot k m =
     (case requireContainer m k of
        Inl e \<Rightarrow> (Inl e, m)
      | Inr a \<Rightarrow>
          let (t1, m1) = now m;
              m2 = upd a (\<lambda>c. c\<lparr>lastUsedAt := t1\<rparr>) m1;
              (t2, m3) = now m2;
              m4 = upd a (\<lambda>c. c\<lparr>updatedAt := t2\<rparr>) m3
          in (Inr (toSnapshot (vfs (heap m4 ! a))), m4))"

definition clone :: "string \<Rightarrow> spawn_options \<Rightarrow> manager \<Rightarrow> (error + nat) \<times> manager" where
  "clone k options m =
     (case requireContainer m k of
        Inl e \<Rightarrow> (Inl e, m)
      | Inr a \<Rightarrow>
          let source = heap m ! a
          in spawn (options\<lparr>sp_cwd := nullish (sp_cwd options) (cwd (runtimeOptions source)),
                            sp_env := nullish (sp_env options) (env (runtimeOptions source)),
                            sp_runtime := nullish (sp_runtime options)
                                            (Some (runtimeOptions source)),
                            sp_metadata := nullish (sp_metadata options) (metadata source),
                            sp_vfsSnapshot := Some (toSnapshot (vfs source))\<rparr>) m)"

subsection \<open>terminate\<close>

text \<open>
  The task \<^verbatim>\<open>finalize\<close> that \<^verbatim>\<open>terminate\<close> chains. It has no \<^verbatim>\<open>await\<close>: it runs in
  one piece. The registry entry is deleted by id.
\<close>

definition finalize :: "nat \<Rightarrow> manager \<Rightarrow> manager" where
  "finalize a m =
     (let c = heap m ! a;
          m1 = (case runtime c of
                  Some (Runtime _ (Some msg)) \<Rightarrow>
                    emit (ContainerError (cid c) ''terminate'' msg)
                      (upd a (\<lambda>c. c\<lparr>lastError := Some (WorkError msg)\<rparr>) m)
                | _ \<Rightarrow> m);
          m2 = setStatus a Terminated m1;
          m3 = bump (\<lambda>b. b\<lparr>containersTerminated := containersTerminated b + 1\<rparr>) m2;
          m4 = emit (ContainerTerminated (cid c)) m3
      in containers_delete (cid c) m4)"

text \<open>\<^verbatim>\<open>terminate\<close> up to its \<^verbatim>\<open>await\<close>.\<close>

definition terminate :: "string \<Rightarrow> manager \<Rightarrow> terminate_reply \<times> manager" where
  "terminate k m =
     (case containers_get m k of
        None \<Rightarrow> (TDone False, m)
      | Some a \<Rightarrow>
          if status (heap m ! a) = Terminating
          then (TQueue a (chained (heap m ! a)) k, m)
          else if status (heap m ! a) = Terminated
          then (TDone True, containers_delete k m)
          else
            let m1 = setStatus a Terminating m;
                n = chained (heap m1 ! a)
            in (TTask a (Suc n),
                upd a (\<lambda>c. c\<lparr>queue := queue c @ [FinalizeTask]\<rparr>) m1))"

text \<open>What the caller of \<^verbatim>\<open>terminate\<close> gets once the promise it awaits has settled
  (\<open>None\<close> before).\<close>

definition terminate_result :: "terminate_reply \<Rightarrow> manager \<Rightarrow> bool option" where
  "terminate_result r m =
     (case r of
        TDone b \<Rightarrow> Some b
      | TTask a n \<Rightarrow> if n \<le> completed (heap m ! a) then Some True else None
      | TQueue a n k \<Rightarrow>
          if n \<le> completed (heap m ! a) then Some (containers_get m k = None) else None)"

definition terminateAll :: "manager \<Rightarrow> manager" where
  "terminateAll m = fold (\<lambda>k m. snd (terminate k m)) (map fst (containers m)) m"

definition dispose :: "manager \<Rightarrow> manager" where
  "dispose m = terminateAll (m\<lparr>idleSweepTimer := None\<rparr>)"

subsection \<open>execute, runFile, install: the operation gate\<close>

text \<open>\<^verbatim>\<open>enqueue\<close>: the synchronous part. The operation gets the next position of the
  chain as its ticket.\<close>

definition enqueue :: "nat \<Rightarrow> op_name \<Rightarrow> op_options \<Rightarrow> manager \<Rightarrow> nat \<times> manager" where
  "enqueue a operation options m =
     (let n = chained (heap m ! a)
      in (n, upd a (\<lambda>c. c\<lparr>pendingOperations := pendingOperations c + 1,
                            queue := queue c @ [OpTask n operation options],
                            submitted := submitted c @ [n]\<rparr>) m))"

definition submit ::
  "op_name \<Rightarrow> string \<Rightarrow> op_options \<Rightarrow> manager \<Rightarrow> (error + nat \<times> nat) \<times> manager" where
  "submit operation k options m =
     (case requireContainer m k of
        Inl e \<Rightarrow> (Inl e, m)
      | Inr a \<Rightarrow> (let (n, m1) = enqueue a operation options m in (Inr (a, n), m1)))"

definition execute :: "string \<Rightarrow> op_options \<Rightarrow> manager \<Rightarrow> (error + nat \<times> nat) \<times> manager" where
  "execute k options m = submit Execute k options m"

definition runFile :: "string \<Rightarrow> op_options \<Rightarrow> manager \<Rightarrow> (error + nat \<times> nat) \<times> manager" where
  "runFile k options m = submit RunFile k options m"

definition install :: "string \<Rightarrow> op_options \<Rightarrow> manager \<Rightarrow> (error + nat \<times> nat) \<times> manager" where
  "install k options m = submit Install k options m"

text \<open>The first statement of each task closure: \<^verbatim>\<open>requireRuntime\<close> for \<^verbatim>\<open>execute\<close> and
  \<^verbatim>\<open>runFile\<close>, \<^verbatim>\<open>requireNpm\<close> for \<^verbatim>\<open>install\<close>.\<close>

definition task_guard :: "op_name \<Rightarrow> managed_container \<Rightarrow> error option" where
  "task_guard operation c =
     (if operation = Install
      then (if npm c = None then Some (NpmNotInitialized (cid c)) else None)
      else (if runtime c = None then Some (RuntimeNotInitialized (cid c)) else None))"

fun fin_val :: "jsnum \<Rightarrow> real" where
  "fin_val (Fin d) = d"
| "fin_val _ = 0"

text \<open>
  \<^verbatim>\<open>runWithControls\<close> up to the point where its promise is pending: the check of
  \<^verbatim>\<open>signal.aborted\<close>, the abort listener, the timer, and the start of the task. A task
  that throws in its guard settles the promise (and \<^verbatim>\<open>cleanup\<close> clears the timer and
  the listener); otherwise the external work is running. The source starts the task
  in the promise job that follows (\<^verbatim>\<open>Promise.resolve().then(task)\<close>); the model runs
  that job at once.
\<close>

definition runWithControls ::
  "manager \<Rightarrow> managed_container \<Rightarrow> nat \<Rightarrow> op_name \<Rightarrow> op_options \<Rightarrow> int \<Rightarrow> inflight" where
  "runWithControls m c n operation options t =
     (let tm = (case timeoutMs options of Some x \<Rightarrow> x | None \<Rightarrow> defaultExecutionTimeoutMs m);
          base = \<lparr>op_ticket = n, op_kind = operation, op_opts = options, startedAt = t,
                  timer = None, listening = False, settled = None\<rparr>
      in if (case signal options of Some sg \<Rightarrow> sg \<in> set (abortedSignals m) | None \<Rightarrow> False)
         then base\<lparr>settled := Some (Inl (OperationAbortedError operation (cid c) True))\<rparr>
         else case task_guard operation c of
                Some e \<Rightarrow> base\<lparr>settled := Some (Inl e)\<rparr>
              | None \<Rightarrow>
                  base\<lparr>timer := (if isFinite tm \<and> js_gt tm (Fin 0) then Some (fin_val tm)
                                  else None),
                       listening := (signal options \<noteq> None)\<rparr>)"

text \<open>\<^verbatim>\<open>run\<close> (the closure of \<^verbatim>\<open>enqueue\<close>), from the bookkeeping of an admitted operation
  (\<^verbatim>\<open>startedAt\<close> to the \<^verbatim>\<open>operation-start\<close> event) ...\<close>

definition run_admit :: "nat \<Rightarrow> op_name \<Rightarrow> manager \<Rightarrow> int \<times> manager" where
  "run_admit a operation m =
     (let c = heap m ! a;
          (t, m1) = now m;
          queueDepth = max 0 (pendingOperations c - 1);
          m2 = upd a (\<lambda>c. c\<lparr>activeOperations := activeOperations c + 1,
                             lastUsedAt := t\<rparr>) m1;
          m3 = setStatus a Busy m2;
          m4 = bump (\<lambda>b. b\<lparr>operationsStarted := operationsStarted b + 1\<rparr>) m3
      in (t, emit (OperationStart (cid c) operation queueDepth t) m4))"

text \<open>... and as a whole, up to \<^verbatim>\<open>await this.runWithControls(...)\<close>. The answer is the
  error \<^verbatim>\<open>run\<close> throws before it starts, if it does.\<close>

definition run_enter ::
  "nat \<Rightarrow> nat \<Rightarrow> op_name \<Rightarrow> op_options \<Rightarrow> manager \<Rightarrow> error option \<times> manager" where
  "run_enter a n operation options m =
     (let c = heap m ! a
      in if status c = Terminating \<or> status c = Terminated
         then (Some (IsFinalizing (cid c) (status c)),
               upd a (\<lambda>c. c\<lparr>completed := Suc (completed c),
                              begun := begun c @ [n],
                              ended := ended c @
                                [(n, options, Inl (IsFinalizing (cid c) (status c)))]\<rparr>) m)
         else
           let (t, m5) = run_admit a operation m;
               fl = runWithControls m5 (heap m5 ! a) n operation options t
           in (None,
               upd a (\<lambda>c. c\<lparr>current := Some fl,
                              begun := begun c @ [n],
                              working := (if settled fl = None then working c @ [n]
                                          else working c)\<rparr>) m5))"

text \<open>The next task of the chain of \<open>a\<close> starts (a promise job). Nothing happens while
  an operation is in flight or when no task waits.\<close>

definition dispatch :: "nat \<Rightarrow> manager \<Rightarrow> error option \<times> manager" where
  "dispatch a m =
     (case current (heap m ! a) of
        Some _ \<Rightarrow> (None, m)
      | None \<Rightarrow>
          (case queue (heap m ! a) of
             [] \<Rightarrow> (None, m)
           | FinalizeTask # rest \<Rightarrow>
               (None,
                upd a (\<lambda>c. c\<lparr>completed := Suc (completed c)\<rparr>)
                  (finalize a (upd a (\<lambda>c. c\<lparr>queue := rest\<rparr>) m)))
           | OpTask n operation options # rest \<Rightarrow>
               run_enter a n operation options (upd a (\<lambda>c. c\<lparr>queue := rest\<rparr>) m)))"

text \<open>\<^verbatim>\<open>settleResolve\<close> and \<^verbatim>\<open>settleReject\<close>: the first outcome wins, and \<^verbatim>\<open>cleanup\<close>
  clears the timer and the listener.\<close>

definition settle :: "error + val \<Rightarrow> inflight \<Rightarrow> inflight" where
  "settle r fl =
     (if settled fl \<noteq> None then fl
      else fl\<lparr>settled := Some r, timer := None, listening := False\<rparr>)"

text \<open>The timer of the operation in flight on \<open>a\<close> fires.\<close>

definition timer_fired :: "nat \<Rightarrow> manager \<Rightarrow> manager" where
  "timer_fired a m =
     upd a (\<lambda>c. case current c of
                   None \<Rightarrow> c
                 | Some fl \<Rightarrow>
                     (case timer fl of
                        None \<Rightarrow> c
                      | Some d \<Rightarrow>
                          c\<lparr>current := Some (settle
                              (Inl (OperationTimeoutError (op_kind fl) (cid c) d)) fl)\<rparr>)) m"

text \<open>A signal fires (once): every operation in flight that listens to it is
  rejected.\<close>

definition on_abort :: "nat \<Rightarrow> managed_container \<Rightarrow> managed_container" where
  "on_abort sg c =
     (case current c of
        None \<Rightarrow> c
      | Some fl \<Rightarrow>
          if listening fl \<and> signal (op_opts fl) = Some sg
          then c\<lparr>current := Some (settle
                   (Inl (OperationAbortedError (op_kind fl) (cid c) False)) fl)\<rparr>
          else c)"

definition abort_signal :: "nat \<Rightarrow> manager \<Rightarrow> manager" where
  "abort_signal sg m =
     (if sg \<in> set (abortedSignals m) then m
      else m\<lparr>abortedSignals := sg # abortedSignals m, heap := map (on_abort sg) (heap m)\<rparr>)"

text \<open>The external work of ticket \<open>n\<close> on \<open>a\<close> finishes, with a value or by throwing.
  It settles the promise only if its operation is still the one in flight.\<close>

definition work_done :: "nat \<Rightarrow> nat \<Rightarrow> string + val \<Rightarrow> manager \<Rightarrow> manager" where
  "work_done a n res m =
     (if n \<in> set (working (heap m ! a))
      then upd a (\<lambda>c. (case current c of
                         None \<Rightarrow> c
                       | Some fl \<Rightarrow>
                           if op_ticket fl = n
                           then c\<lparr>current := Some (settle
                                    (case res of Inl msg \<Rightarrow> Inl (WorkError msg)
                                     | Inr v \<Rightarrow> Inr v) fl)\<rparr>
                           else c)\<lparr>working := removeAll n (working c)\<rparr>) m
      else m)"

text \<open>
  \<^verbatim>\<open>run\<close> from \<^verbatim>\<open>await this.runWithControls(...)\<close> on, once that promise has settled:
  the rest of the \<^verbatim>\<open>try\<close>, the \<^verbatim>\<open>catch\<close>, the \<^verbatim>\<open>finally\<close>. The answer is what the
  caller of \<^verbatim>\<open>execute\<close>, \<^verbatim>\<open>runFile\<close> or \<^verbatim>\<open>install\<close> gets.
\<close>

definition run_catch :: "nat \<Rightarrow> error \<Rightarrow> manager \<Rightarrow> manager" where
  "run_catch a e m =
     (let m1 = bump (\<lambda>b. b\<lparr>operationsFailed := operationsFailed b + 1\<rparr>) m;
          m2 = (if is_timeout e
                then bump (\<lambda>b. b\<lparr>operationTimeouts := operationTimeouts b + 1\<rparr>) m1 else m1);
          m3 = (if is_aborted e
                then bump (\<lambda>b. b\<lparr>operationAborted := operationAborted b + 1\<rparr>) m2 else m2)
      in upd a (\<lambda>c. c\<lparr>lastError := Some e\<rparr>) m3)"

definition run_finally :: "nat \<Rightarrow> inflight \<Rightarrow> error + val \<Rightarrow> manager \<Rightarrow> manager" where
  "run_finally a fl r m =
     (let (endedAt, m1) = now m;
          durationMs = max 0 (endedAt - startedAt fl);
          m2 = upd a (\<lambda>c. c\<lparr>activeOperations := max 0 (activeOperations c - 1),
                             pendingOperations := max 0 (pendingOperations c - 1),
                             lastUsedAt := endedAt\<rparr>) m1;
          m3 = (if \<not> isFinalizingStatus (status (heap m2 ! a))
                then setStatus a (if activeOperations (heap m2 ! a) > 0 then Busy else Ready) m2
                else m2)
      in emit (OperationEnd (cid (heap m3 ! a)) (op_kind fl) durationMs (case r of Inr _ \<Rightarrow> True | Inl _ \<Rightarrow> False) endedAt) m3)"

definition run_resume :: "nat \<Rightarrow> manager \<Rightarrow> (error + val) option \<times> manager" where
  "run_resume a m =
     (case current (heap m ! a) of
        None \<Rightarrow> (None, m)
      | Some fl \<Rightarrow>
          (case settled fl of
             None \<Rightarrow> (None, m)
           | Some r \<Rightarrow>
               let m1 = (case r of
                           Inr v \<Rightarrow> bump (\<lambda>b. b\<lparr>operationsSucceeded :=
                                                   operationsSucceeded b + 1\<rparr>) m
                         | Inl e \<Rightarrow> run_catch a e m);
                   m2 = run_finally a fl r m1
               in (Some r,
                   upd a (\<lambda>c. c\<lparr>current := None,
                                  completed := Suc (completed c),
                                  ended := ended c @ [(op_ticket fl, op_opts fl, r)]\<rparr>) m2)))"

subsection \<open>The idle sweep\<close>

text \<open>The filter of \<^verbatim>\<open>evictIdleContainers\<close>, over the registry's values in insertion
  order.\<close>

definition idle :: "int \<Rightarrow> int \<Rightarrow> managed_container \<Rightarrow> bool" where
  "idle idleTtlMs t c =
     (status c = Ready \<and> activeOperations c = 0 \<and> pendingOperations c = 0 \<and>
      t - lastUsedAt c \<ge> idleTtlMs)"

definition idleCandidates :: "int \<Rightarrow> int \<Rightarrow> manager \<Rightarrow> string list" where
  "idleCandidates idleTtlMs t m =
     map cid (filter (idle idleTtlMs t) (map (\<lambda>p. heap m ! snd p) (containers m)))"

text \<open>The loop over the candidates: it calls \<^verbatim>\<open>terminate\<close> on the next one and is
  suspended at the \<^verbatim>\<open>await\<close>; after the last one the \<^verbatim>\<open>finally\<close> clears the flag.\<close>

definition sweep_next :: "string list \<Rightarrow> manager \<Rightarrow> manager" where
  "sweep_next ids m =
     (case ids of
        [] \<Rightarrow> m\<lparr>idleSweepRunning := False, sweepWait := None\<rparr>
      | k # rest \<Rightarrow> (let (r, m1) = terminate k m in m1\<lparr>sweepWait := Some (r, k, rest)\<rparr>))"

definition evictIdleContainers :: "int \<Rightarrow> manager \<Rightarrow> manager" where
  "evictIdleContainers idleTtlMs m =
     (if idleSweepRunning m then m
      else
        let (t, m1) = now (m\<lparr>idleSweepRunning := True\<rparr>)
        in sweep_next (idleCandidates idleTtlMs t m1) m1)"

text \<open>The sweep resumes when the \<^verbatim>\<open>terminate\<close> it awaits has settled.\<close>

definition sweep_resume :: "manager \<Rightarrow> manager" where
  "sweep_resume m =
     (case sweepWait m of
        None \<Rightarrow> m
      | Some (r, k, rest) \<Rightarrow>
          (case terminate_result r m of
             None \<Rightarrow> m
           | Some terminated \<Rightarrow>
               sweep_next rest (if terminated then emit (ContainerEvicted k) m else m)))"

section \<open>Runs of the manager\<close>

datatype event =
    CallSpawn spawn_options
  | ResumeSpawn nat construct_outcome
  | CallExecute string op_options
  | CallRunFile string op_options
  | CallInstall string op_options
  | CallSnapshot string
  | CallClone string spawn_options
  | CallTerminate string
  | CallTerminateAll
  | CallDispose
  | Dispatch nat
  | TimerFired nat
  | AbortSignal nat
  | WorkDone nat nat "string + val"
  | ResumeRun nat
  | SweepTimer
  | ResumeSweep

fun step :: "event \<Rightarrow> manager \<Rightarrow> manager" where
  "step (CallSpawn options) m = snd (spawn options m)"
| "step (ResumeSpawn a outcome) m =
     (if a < length (heap m) then snd (spawn_resume a outcome m) else m)"
| "step (CallExecute k options) m = snd (execute k options m)"
| "step (CallRunFile k options) m = snd (runFile k options m)"
| "step (CallInstall k options) m = snd (install k options m)"
| "step (CallSnapshot k) m = snd (snapshot k m)"
| "step (CallClone k options) m = snd (clone k options m)"
| "step (CallTerminate k) m = snd (terminate k m)"
| "step CallTerminateAll m = terminateAll m"
| "step CallDispose m = dispose m"
| "step (Dispatch a) m = (if a < length (heap m) then snd (dispatch a m) else m)"
| "step (TimerFired a) m = (if a < length (heap m) then timer_fired a m else m)"
| "step (AbortSignal sg) m = abort_signal sg m"
| "step (WorkDone a n res) m = (if a < length (heap m) then work_done a n res m else m)"
| "step (ResumeRun a) m = (if a < length (heap m) then snd (run_resume a m) else m)"
| "step SweepTimer m =
     (case idleSweepTimer m of Some ttl \<Rightarrow> evictIdleContainers ttl m | None \<Rightarrow> m)"
| "step ResumeSweep m = sweep_resume m"

definition exec :: "event list \<Rightarrow> manager \<Rightarrow> manager" where
  "exec es m = fold step es m"

section \<open>Example runs\<close>

text \<open>Concrete inputs for the examples below: a clock that advances by 10 at every
  reading, an idle threshold of 1000, spawn options with a given id, a runtime whose
  \<^verbatim>\<open>terminate\<close> returns, and operation options with a timeout and no signal.\<close>

definition demo_options :: manager_options where
  "demo_options =
     \<lparr>o_maxContainers = None, o_defaultExecutionTimeoutMs = None, o_runtime = None,
      o_idleTtlMs = Some 1000, o_idPrefix = None, o_idGenerator = None,
      o_now = (\<lambda>n. int n * 10)\<rparr>"

definition demo_spawn :: "string \<Rightarrow> spawn_options" where
  "demo_spawn k =
     \<lparr>sp_id = Some k, sp_cwd = None, sp_env = None, sp_runtime = None, sp_npmCwd = None,
      sp_metadata = None, sp_vfsSnapshot = None, sp_files = Some [(''/app.js'', ''x'')]\<rparr>"

definition demo_runtime :: runtime where
  "demo_runtime = Runtime MainThread None"

definition with_timeout :: "jsnum \<Rightarrow> op_options" where
  "with_timeout t = \<lparr>timeoutMs = Some t, signal = None\<rparr>"

text \<open>A manager whose \<^verbatim>\<open>spawn\<close> of container \<open>a\<close> is suspended at
  \<^verbatim>\<open>await createRuntime\<close>.\<close>

definition spawning_state :: manager where
  "spawning_state = exec [CallSpawn (demo_spawn ''a'')] (new_manager demo_options)"

text \<open>A manager with one ready container \<open>a\<close>.\<close>

definition ready_state :: manager where
  "ready_state =
     exec [CallSpawn (demo_spawn ''a''), ResumeSpawn 0 (Constructed demo_runtime)]
       (new_manager demo_options)"

text \<open>Container \<open>a\<close> has an operation in flight and a second one waiting.\<close>

definition busy_state :: manager where
  "busy_state =
     exec [CallSpawn (demo_spawn ''a''), ResumeSpawn 0 (Constructed demo_runtime),
           CallExecute ''a'' (with_timeout (Fin 25)), CallRunFile ''a'' (with_timeout (Fin 0)),
           Dispatch 0]
       (new_manager demo_options)"

text \<open>\<^verbatim>\<open>terminate\<close> was called on container \<open>a\<close> while its operation is in flight: the
  record is in the registry, in status \<^verbatim>\<open>terminating\<close>.\<close>

definition terminating_state :: manager where
  "terminating_state = exec [CallTerminate ''a''] busy_state"

section \<open>Basic facts about the helpers\<close>

lemma upd_fields:
  "heap (upd a f m) = (heap m)[a := f (heap m ! a)]"
  "containers (upd a f m) = containers m"
  "metricsBase (upd a f m) = metricsBase m"
  "clock (upd a f m) = clock m"
  "ticks (upd a f m) = ticks m"
  "events (upd a f m) = events m"
  "abortedSignals (upd a f m) = abortedSignals m"
  "defaultExecutionTimeoutMs (upd a f m) = defaultExecutionTimeoutMs m"
  "idleSweepRunning (upd a f m) = idleSweepRunning m"
  "sweepWait (upd a f m) = sweepWait m"
  "idleSweepTimer (upd a f m) = idleSweepTimer m"
  "maxContainers (upd a f m) = maxContainers m"
  by (simp_all add: upd_def)

lemma emit_fields:
  "heap (emit e m) = heap m"
  "containers (emit e m) = containers m"
  "metricsBase (emit e m) = metricsBase m"
  "clock (emit e m) = clock m"
  "ticks (emit e m) = ticks m"
  "events (emit e m) = events m @ [e]"
  "abortedSignals (emit e m) = abortedSignals m"
  "defaultExecutionTimeoutMs (emit e m) = defaultExecutionTimeoutMs m"
  "idleSweepRunning (emit e m) = idleSweepRunning m"
  "sweepWait (emit e m) = sweepWait m"
  "idleSweepTimer (emit e m) = idleSweepTimer m"
  "maxContainers (emit e m) = maxContainers m"
  by (simp_all add: emit_def)

lemma bump_fields:
  "heap (bump g m) = heap m"
  "containers (bump g m) = containers m"
  "metricsBase (bump g m) = g (metricsBase m)"
  "clock (bump g m) = clock m"
  "ticks (bump g m) = ticks m"
  "events (bump g m) = events m"
  "abortedSignals (bump g m) = abortedSignals m"
  "defaultExecutionTimeoutMs (bump g m) = defaultExecutionTimeoutMs m"
  "idleSweepRunning (bump g m) = idleSweepRunning m"
  "sweepWait (bump g m) = sweepWait m"
  "idleSweepTimer (bump g m) = idleSweepTimer m"
  "maxContainers (bump g m) = maxContainers m"
  by (simp_all add: bump_def)

lemma containers_delete_fields:
  "heap (containers_delete k m) = heap m"
  "containers (containers_delete k m) = AList.delete k (containers m)"
  "metricsBase (containers_delete k m) = metricsBase m"
  "clock (containers_delete k m) = clock m"
  "ticks (containers_delete k m) = ticks m"
  "events (containers_delete k m) = events m"
  "abortedSignals (containers_delete k m) = abortedSignals m"
  "defaultExecutionTimeoutMs (containers_delete k m) = defaultExecutionTimeoutMs m"
  "idleSweepRunning (containers_delete k m) = idleSweepRunning m"
  "sweepWait (containers_delete k m) = sweepWait m"
  "idleSweepTimer (containers_delete k m) = idleSweepTimer m"
  "maxContainers (containers_delete k m) = maxContainers m"
  by (simp_all add: containers_delete_def)

lemma now_fields:
  "fst (now m) = clock m (ticks m)"
  "heap (snd (now m)) = heap m"
  "containers (snd (now m)) = containers m"
  "metricsBase (snd (now m)) = metricsBase m"
  "clock (snd (now m)) = clock m"
  "ticks (snd (now m)) = Suc (ticks m)"
  "events (snd (now m)) = events m"
  "abortedSignals (snd (now m)) = abortedSignals m"
  "defaultExecutionTimeoutMs (snd (now m)) = defaultExecutionTimeoutMs m"
  "idleSweepRunning (snd (now m)) = idleSweepRunning m"
  "sweepWait (snd (now m)) = sweepWait m"
  "idleSweepTimer (snd (now m)) = idleSweepTimer m"
  "maxContainers (snd (now m)) = maxContainers m"
  by (simp_all add: now_def)

lemmas field_simps = upd_fields emit_fields bump_fields containers_delete_fields now_fields

text \<open>\<^verbatim>\<open>setStatus\<close> as a function of one object.\<close>

definition set_status :: "status \<Rightarrow> int \<Rightarrow> managed_container \<Rightarrow> managed_container" where
  "set_status st t c = (if status c = st then c else c\<lparr>status := st, updatedAt := t\<rparr>)"

lemma setStatus_fields:
  "heap (setStatus a st m) = (heap m)[a := set_status st (clock m (ticks m)) (heap m ! a)]"
  "containers (setStatus a st m) = containers m"
  "metricsBase (setStatus a st m) = metricsBase m"
  "clock (setStatus a st m) = clock m"
  "abortedSignals (setStatus a st m) = abortedSignals m"
  "defaultExecutionTimeoutMs (setStatus a st m) = defaultExecutionTimeoutMs m"
  "idleSweepRunning (setStatus a st m) = idleSweepRunning m"
  "sweepWait (setStatus a st m) = sweepWait m"
  "idleSweepTimer (setStatus a st m) = idleSweepTimer m"
  "maxContainers (setStatus a st m) = maxContainers m"
  by (simp_all add: setStatus_def set_status_def Let_def case_prod_beta field_simps)

lemma set_status_fields:
  "cid (set_status st t c) = cid c"
  "activeOperations (set_status st t c) = activeOperations c"
  "pendingOperations (set_status st t c) = pendingOperations c"
  "queue (set_status st t c) = queue c"
  "current (set_status st t c) = current c"
  "completed (set_status st t c) = completed c"
  "runtime (set_status st t c) = runtime c"
  "npm (set_status st t c) = npm c"
  "status (set_status st t c) = st"
  "submitted (set_status st t c) = submitted c"
  "begun (set_status st t c) = begun c"
  "ended (set_status st t c) = ended c"
  "working (set_status st t c) = working c"
  "vfs (set_status st t c) = vfs c"
  "lastUsedAt (set_status st t c) = lastUsedAt c"
  "awaitingRuntime (set_status st t c) = awaitingRuntime c"
  by (simp_all add: set_status_def)

lemma nth_list_update_self: "xs[a := x] ! a = (if a < length xs then x else xs ! a)"
  by (cases "a < length xs") (simp_all add: list_update_beyond)

lemma list_update_twice_self: "xs[a := f (xs[a := x] ! a)] = xs[a := f x]"
  by (cases "a < length xs") (simp_all add: list_update_beyond)

text \<open>The registry is consistent: ids are distinct, and every entry points to an
  object of the heap that carries the id of the entry.\<close>

definition registry_ok :: "manager \<Rightarrow> bool" where
  "registry_ok m =
     (distinct (map fst (containers m)) \<and>
      (\<forall>p \<in> set (containers m). snd p < length (heap m) \<and> cid (heap m ! snd p) = fst p))"

lemma registry_ok_lookup:
  assumes "registry_ok m" "containers_get m k = Some a"
  shows "a < length (heap m)" "cid (heap m ! a) = k"
proof -
  have "(k, a) \<in> set (containers m)"
    using assms(2) by (simp add: containers_get_def map_of_SomeD)
  then have "snd (k, a) < length (heap m) \<and> cid (heap m ! snd (k, a)) = fst (k, a)"
    using assms(1) unfolding registry_ok_def by blast
  then show "a < length (heap m)" "cid (heap m ! a) = k" by simp_all
qed

lemma registry_ok_unique:
  assumes "registry_ok m" "p \<in> set (containers m)" "cid (heap m ! snd p) = k"
    "containers_get m k = Some a"
  shows "snd p = a"
proof -
  have "cid (heap m ! snd p) = fst p"
    using assms(1,2) unfolding registry_ok_def by blast
  then have "fst p = k" using assms(3) by simp
  moreover have "distinct (map fst (containers m))"
    using assms(1) unfolding registry_ok_def by blast
  ultimately have "map_of (containers m) k = Some (snd p)"
    using assms(2) by (metis map_of_is_SomeI prod.collapse)
  then show ?thesis using assms(4) by (simp add: containers_get_def)
qed

lemma spawn_catch_registry:
  "a < length (heap m) \<Longrightarrow>
   containers (snd (spawn_catch a msg m)) = AList.delete (cid (heap m ! a)) (containers m)"
  by (simp add: spawn_catch_def Let_def case_prod_beta field_simps setStatus_fields
      set_status_fields split: option.splits runtime.splits)

lemma spawn_catch_error: "\<exists>e. fst (spawn_catch a msg m) = ConstructionError e"
  by (simp add: spawn_catch_def Let_def split: option.splits runtime.splits)

lemma snapshot_state:
  assumes "requireContainer m k = Inr a"
  shows "snd (snapshot k m) =
     m\<lparr>heap := (heap m)[a := (heap m ! a)\<lparr>lastUsedAt := clock m (ticks m),
                                           updatedAt := clock m (Suc (ticks m))\<rparr>],
       ticks := Suc (Suc (ticks m))\<rparr>"
  using assms
  by (simp add: snapshot_def Let_def case_prod_beta now_def upd_def list_update_twice_self)

section \<open>What each piece does to the heap\<close>

text \<open>Every piece of the manager changes at most one object of the heap (a signal
  that fires may change several, each in the same way), or allocates one. The
  lemmas of this section say which object, and how.\<close>

lemma runWithControls_cong:
  assumes "defaultExecutionTimeoutMs m' = defaultExecutionTimeoutMs m"
    "abortedSignals m' = abortedSignals m"
    "cid c' = cid c" "runtime c' = runtime c" "npm c' = npm c"
  shows "runWithControls m' c' n operation options t = runWithControls m c n operation options t"
  unfolding runWithControls_def task_guard_def assms by (rule refl)

text \<open>The bookkeeping of an admitted operation, on its object.\<close>

definition admit :: "int \<Rightarrow> int \<Rightarrow> managed_container \<Rightarrow> managed_container" where
  "admit t t' c =
     set_status Busy t' (c\<lparr>activeOperations := activeOperations c + 1, lastUsedAt := t\<rparr>)"

lemma run_admit_fields:
  "fst (run_admit a operation m) = clock m (ticks m)"
  "heap (snd (run_admit a operation m)) =
     (heap m)[a := admit (clock m (ticks m)) (clock m (Suc (ticks m))) (heap m ! a)]"
  "containers (snd (run_admit a operation m)) = containers m"
  "metricsBase (snd (run_admit a operation m)) =
     (metricsBase m)\<lparr>operationsStarted := operationsStarted (metricsBase m) + 1\<rparr>"
  "clock (snd (run_admit a operation m)) = clock m"
  "abortedSignals (snd (run_admit a operation m)) = abortedSignals m"
  "defaultExecutionTimeoutMs (snd (run_admit a operation m)) = defaultExecutionTimeoutMs m"
  "idleSweepRunning (snd (run_admit a operation m)) = idleSweepRunning m"
  "sweepWait (snd (run_admit a operation m)) = sweepWait m"
  "idleSweepTimer (snd (run_admit a operation m)) = idleSweepTimer m"
  "maxContainers (snd (run_admit a operation m)) = maxContainers m"
  by (simp_all add: run_admit_def admit_def Let_def case_prod_beta field_simps setStatus_fields
      list_update_twice_self)

lemma admit_fields:
  "cid (admit t t' c) = cid c"
  "activeOperations (admit t t' c) = activeOperations c + 1"
  "pendingOperations (admit t t' c) = pendingOperations c"
  "queue (admit t t' c) = queue c"
  "current (admit t t' c) = current c"
  "completed (admit t t' c) = completed c"
  "runtime (admit t t' c) = runtime c"
  "npm (admit t t' c) = npm c"
  "status (admit t t' c) = Busy"
  "submitted (admit t t' c) = submitted c"
  "begun (admit t t' c) = begun c"
  "ended (admit t t' c) = ended c"
  "working (admit t t' c) = working c"
  "vfs (admit t t' c) = vfs c"
  "lastUsedAt (admit t t' c) = t"
  "awaitingRuntime (admit t t' c) = awaitingRuntime c"
  by (simp_all add: admit_def set_status_fields)

definition entered :: "inflight \<Rightarrow> nat \<Rightarrow> managed_container \<Rightarrow> managed_container" where
  "entered fl n c =
     c\<lparr>current := Some fl, begun := begun c @ [n],
       working := (if settled fl = None then working c @ [n] else working c)\<rparr>"

definition refused :: "nat \<Rightarrow> op_options \<Rightarrow> managed_container \<Rightarrow> managed_container" where
  "refused n options c =
     c\<lparr>completed := Suc (completed c), begun := begun c @ [n],
       ended := ended c @ [(n, options, Inl (IsFinalizing (cid c) (status c)))]\<rparr>"

lemma run_enter_admitted:
  fixes a n operation options m
  assumes len: "a < length (heap m)"
    and st: "\<not> isFinalizingStatus (status (heap m ! a))"
  shows "fst (run_enter a n operation options m) = None"
    and "heap (snd (run_enter a n operation options m)) =
      (heap m)[a := entered
         (runWithControls m (heap m ! a) n operation options (clock m (ticks m))) n
         (admit (clock m (ticks m)) (clock m (Suc (ticks m))) (heap m ! a))]"
proof -
  define c where "c = admit (clock m (ticks m)) (clock m (Suc (ticks m))) (heap m ! a)"
  define fl where "fl = runWithControls m (heap m ! a) n operation options (clock m (ticks m))"
  have fl5: "runWithControls (snd (run_admit a operation m)) c n operation options
       (clock m (ticks m)) = fl"
    unfolding fl_def c_def
    by (rule runWithControls_cong) (simp_all add: run_admit_fields admit_fields)
  show "fst (run_enter a n operation options m) = None"
    using st by (simp add: run_enter_def isFinalizingStatus_def Let_def case_prod_beta)
  show "heap (snd (run_enter a n operation options m)) =
      (heap m)[a := entered
         (runWithControls m (heap m ! a) n operation options (clock m (ticks m))) n
         (admit (clock m (ticks m)) (clock m (Suc (ticks m))) (heap m ! a))]"
    using st len
    unfolding c_def [symmetric] fl_def [symmetric]
    by (simp add: run_enter_def isFinalizingStatus_def Let_def case_prod_beta upd_fields
        run_admit_fields c_def [symmetric] fl5 entered_def)
qed

lemma run_enter_refused:
  assumes "isFinalizingStatus (status (heap m ! a))"
  shows "fst (run_enter a n operation options m) =
           Some (IsFinalizing (cid (heap m ! a)) (status (heap m ! a)))"
    and "heap (snd (run_enter a n operation options m)) =
           (heap m)[a := refused n options (heap m ! a)]"
  using assms
  by (simp_all add: run_enter_def isFinalizingStatus_def Let_def upd_fields refused_def)

lemma run_enter_other:
  "containers (snd (run_enter a n operation options m)) = containers m"
  "abortedSignals (snd (run_enter a n operation options m)) = abortedSignals m"
  "defaultExecutionTimeoutMs (snd (run_enter a n operation options m)) =
     defaultExecutionTimeoutMs m"
  "idleSweepRunning (snd (run_enter a n operation options m)) = idleSweepRunning m"
  "sweepWait (snd (run_enter a n operation options m)) = sweepWait m"
  "idleSweepTimer (snd (run_enter a n operation options m)) = idleSweepTimer m"
  "clock (snd (run_enter a n operation options m)) = clock m"
  "maxContainers (snd (run_enter a n operation options m)) = maxContainers m"
  by (simp_all add: run_enter_def Let_def case_prod_beta upd_fields run_admit_fields)

text \<open>The task \<^verbatim>\<open>finalize\<close>, on its object.\<close>

definition finalized :: "int \<Rightarrow> managed_container \<Rightarrow> managed_container" where
  "finalized t c =
     set_status Terminated t
       (case runtime c of
          Some (Runtime _ (Some msg)) \<Rightarrow> c\<lparr>lastError := Some (WorkError msg)\<rparr>
        | _ \<Rightarrow> c)"

lemma finalize_fields:
  "heap (finalize a m) = (heap m)[a := finalized (clock m (ticks m)) (heap m ! a)]"
  "a < length (heap m) \<Longrightarrow>
     containers (finalize a m) = AList.delete (cid (heap m ! a)) (containers m)"
  "metricsBase (finalize a m) =
     (metricsBase m)\<lparr>containersTerminated := containersTerminated (metricsBase m) + 1\<rparr>"
  "abortedSignals (finalize a m) = abortedSignals m"
  "defaultExecutionTimeoutMs (finalize a m) = defaultExecutionTimeoutMs m"
  "idleSweepRunning (finalize a m) = idleSweepRunning m"
  "sweepWait (finalize a m) = sweepWait m"
  "idleSweepTimer (finalize a m) = idleSweepTimer m"
  "clock (finalize a m) = clock m"
  "maxContainers (finalize a m) = maxContainers m"
  by (simp_all add: finalize_def finalized_def Let_def field_simps setStatus_fields
      list_update_twice_self split: option.splits runtime.splits)

text \<open>The four ways a promise job of the chain goes.\<close>

lemma dispatch_idle:
  assumes "current (heap m ! a) \<noteq> None \<or> queue (heap m ! a) = []"
  shows "dispatch a m = (None, m)"
  using assms by (auto simp: dispatch_def split: option.splits list.splits)

lemma dispatch_finalize:
  assumes "a < length (heap m)" "current (heap m ! a) = None"
    "queue (heap m ! a) = FinalizeTask # rest"
  shows "heap (snd (dispatch a m)) =
           (heap m)[a := (finalized (clock m (ticks m)) ((heap m ! a)\<lparr>queue := rest\<rparr>))
                           \<lparr>completed := Suc (completed (heap m ! a))\<rparr>]"
    and "containers (snd (dispatch a m)) = AList.delete (cid (heap m ! a)) (containers m)"
proof -
  have c: "completed (finalized t c) = completed c" for t c
    by (simp add: finalized_def set_status_fields split: option.splits runtime.splits)
  show "heap (snd (dispatch a m)) =
           (heap m)[a := (finalized (clock m (ticks m)) ((heap m ! a)\<lparr>queue := rest\<rparr>))
                           \<lparr>completed := Suc (completed (heap m ! a))\<rparr>]"
    using assms by (simp add: dispatch_def upd_fields finalize_fields c)
  show "containers (snd (dispatch a m)) = AList.delete (cid (heap m ! a)) (containers m)"
    using assms by (simp add: dispatch_def upd_fields finalize_fields)
qed

lemma dispatch_admitted:
  assumes "a < length (heap m)" "current (heap m ! a) = None"
    "queue (heap m ! a) = OpTask n operation options # rest"
    "\<not> isFinalizingStatus (status (heap m ! a))"
  shows "heap (snd (dispatch a m)) =
      (heap m)[a := entered
         (runWithControls m (heap m ! a) n operation options (clock m (ticks m))) n
         (admit (clock m (ticks m)) (clock m (Suc (ticks m))) ((heap m ! a)\<lparr>queue := rest\<rparr>))]"
    and "fst (dispatch a m) = None"
proof -
  define m0 where "m0 = upd a (\<lambda>c. c\<lparr>queue := rest\<rparr>) m"
  have d: "dispatch a m = run_enter a n operation options m0"
    using assms by (simp add: dispatch_def m0_def)
  have len0: "a < length (heap m0)"
    and st0: "\<not> isFinalizingStatus (status (heap m0 ! a))"
    and h0: "heap m0 = (heap m)[a := (heap m ! a)\<lparr>queue := rest\<rparr>]"
    and o0: "clock m0 = clock m" "ticks m0 = ticks m"
    using assms by (simp_all add: m0_def upd_fields)
  have rw: "runWithControls m0 ((heap m ! a)\<lparr>queue := rest\<rparr>) n operation options t =
            runWithControls m (heap m ! a) n operation options t" for t
    by (rule runWithControls_cong) (simp_all add: m0_def upd_fields)
  show "heap (snd (dispatch a m)) =
      (heap m)[a := entered
         (runWithControls m (heap m ! a) n operation options (clock m (ticks m))) n
         (admit (clock m (ticks m)) (clock m (Suc (ticks m))) ((heap m ! a)\<lparr>queue := rest\<rparr>))]"
    using assms(1) by (simp add: d run_enter_admitted(2) [OF len0 st0] rw o0 h0)
  show "fst (dispatch a m) = None"
    by (simp add: d run_enter_admitted(1) [OF len0 st0])
qed

lemma dispatch_refused:
  assumes "a < length (heap m)" "current (heap m ! a) = None"
    "queue (heap m ! a) = OpTask n operation options # rest"
    "isFinalizingStatus (status (heap m ! a))"
  shows "heap (snd (dispatch a m)) =
           (heap m)[a := refused n options ((heap m ! a)\<lparr>queue := rest\<rparr>)]"
    and "fst (dispatch a m) = Some (IsFinalizing (cid (heap m ! a)) (status (heap m ! a)))"
proof -
  define m0 where "m0 = upd a (\<lambda>c. c\<lparr>queue := rest\<rparr>) m"
  have d: "dispatch a m = run_enter a n operation options m0"
    using assms by (simp add: dispatch_def m0_def)
  have st0: "isFinalizingStatus (status (heap m0 ! a))"
    and h0: "heap m0 = (heap m)[a := (heap m ! a)\<lparr>queue := rest\<rparr>]"
    using assms by (simp_all add: m0_def upd_fields)
  show "heap (snd (dispatch a m)) =
           (heap m)[a := refused n options ((heap m ! a)\<lparr>queue := rest\<rparr>)]"
    using assms(1) by (simp add: d run_enter_refused(2) [OF st0] h0)
  show "fst (dispatch a m) = Some (IsFinalizing (cid (heap m ! a)) (status (heap m ! a)))"
    using assms(1) by (simp add: d run_enter_refused(1) [OF st0] h0)
qed

lemma dispatch_registry:
  assumes "a < length (heap m)"
  shows "containers (snd (dispatch a m)) = containers m \<or>
         (current (heap m ! a) = None \<and> (\<exists>rest. queue (heap m ! a) = FinalizeTask # rest) \<and>
          containers (snd (dispatch a m)) = AList.delete (cid (heap m ! a)) (containers m))"
  using assms
  by (auto simp: dispatch_def upd_fields finalize_fields run_enter_other
      split: option.splits list.splits task.splits)

text \<open>\<^verbatim>\<open>run\<close> after the \<^verbatim>\<open>await\<close>, on its object.\<close>

definition resumed ::
  "inflight \<Rightarrow> error + val \<Rightarrow> int \<Rightarrow> int \<Rightarrow> managed_container \<Rightarrow> managed_container" where
  "resumed fl r t t' c =
     (let c1 = (case r of Inl e \<Rightarrow> c\<lparr>lastError := Some e\<rparr> | Inr _ \<Rightarrow> c);
          c2 = c1\<lparr>activeOperations := max 0 (activeOperations c1 - 1),
                  pendingOperations := max 0 (pendingOperations c1 - 1),
                  lastUsedAt := t\<rparr>;
          c3 = (if \<not> isFinalizingStatus (status c2)
                then set_status (if activeOperations c2 > 0 then Busy else Ready) t' c2
                else c2)
      in c3\<lparr>current := None, completed := Suc (completed c3),
            ended := ended c3 @ [(op_ticket fl, op_opts fl, r)]\<rparr>)"

lemma run_catch_fields:
  "heap (run_catch a e m) = (heap m)[a := (heap m ! a)\<lparr>lastError := Some e\<rparr>]"
  "containers (run_catch a e m) = containers m"
  "clock (run_catch a e m) = clock m"
  "ticks (run_catch a e m) = ticks m"
  "abortedSignals (run_catch a e m) = abortedSignals m"
  "defaultExecutionTimeoutMs (run_catch a e m) = defaultExecutionTimeoutMs m"
  "idleSweepRunning (run_catch a e m) = idleSweepRunning m"
  "sweepWait (run_catch a e m) = sweepWait m"
  "idleSweepTimer (run_catch a e m) = idleSweepTimer m"
  "maxContainers (run_catch a e m) = maxContainers m"
  by (simp_all add: run_catch_def Let_def field_simps)

lemma run_finally_fields:
  "a < length (heap m) \<Longrightarrow> heap (run_finally a fl r m) =
     (heap m)[a :=
       (let c2 = (heap m ! a)\<lparr>activeOperations := max 0 (activeOperations (heap m ! a) - 1),
                  pendingOperations := max 0 (pendingOperations (heap m ! a) - 1),
                  lastUsedAt := clock m (ticks m)\<rparr>
        in if \<not> isFinalizingStatus (status c2)
           then set_status (if activeOperations c2 > 0 then Busy else Ready)
                  (clock m (Suc (ticks m))) c2
           else c2)]"
  "containers (run_finally a fl r m) = containers m"
  "clock (run_finally a fl r m) = clock m"
  "abortedSignals (run_finally a fl r m) = abortedSignals m"
  "defaultExecutionTimeoutMs (run_finally a fl r m) = defaultExecutionTimeoutMs m"
  "idleSweepRunning (run_finally a fl r m) = idleSweepRunning m"
  "sweepWait (run_finally a fl r m) = sweepWait m"
  "idleSweepTimer (run_finally a fl r m) = idleSweepTimer m"
  "maxContainers (run_finally a fl r m) = maxContainers m"
  by (simp_all add: run_finally_def Let_def case_prod_beta field_simps setStatus_fields)

lemma run_resume_idle:
  assumes "current (heap m ! a) = None \<or>
           (\<exists>fl. current (heap m ! a) = Some fl \<and> settled fl = None)"
  shows "run_resume a m = (None, m)"
  using assms by (auto simp: run_resume_def)

lemma run_resume_settled:
  assumes "a < length (heap m)" "current (heap m ! a) = Some fl" "settled fl = Some r"
  shows "fst (run_resume a m) = Some r"
    and "heap (snd (run_resume a m)) =
           (heap m)[a := resumed fl r (clock m (ticks m)) (clock m (Suc (ticks m))) (heap m ! a)]"
    and "containers (snd (run_resume a m)) = containers m"
proof -
  define m1 where "m1 = (case r of
      Inr v \<Rightarrow> bump (\<lambda>b. b\<lparr>operationsSucceeded := operationsSucceeded b + 1\<rparr>) m
    | Inl e \<Rightarrow> run_catch a e m)"
  have h1: "heap m1 = (heap m)[a := (case r of Inl e \<Rightarrow> (heap m ! a)\<lparr>lastError := Some e\<rparr>
                                    | Inr _ \<Rightarrow> heap m ! a)]"
    and o1: "clock m1 = clock m" "ticks m1 = ticks m" "containers m1 = containers m"
    by (simp_all add: m1_def run_catch_fields bump_fields split: sum.splits)
  have len1: "a < length (heap m1)"
    using assms(1) by (simp add: h1)
  have unf: "run_resume a m =
     (Some r, upd a (\<lambda>c. c\<lparr>current := None, completed := Suc (completed c),
                           ended := ended c @ [(op_ticket fl, op_opts fl, r)]\<rparr>)
                (run_finally a fl r m1))"
    using assms(2,3) by (simp add: run_resume_def Let_def m1_def)
  show "fst (run_resume a m) = Some r"
    by (simp add: unf)
  show "heap (snd (run_resume a m)) =
           (heap m)[a := resumed fl r (clock m (ticks m)) (clock m (Suc (ticks m))) (heap m ! a)]"
    using assms(1)
    by (simp add: unf upd_fields run_finally_fields(1) [OF len1] h1 o1 resumed_def Let_def)
  show "containers (snd (run_resume a m)) = containers m"
    by (simp add: unf upd_fields run_finally_fields o1)
qed

lemma run_resume_other:
  "containers (snd (run_resume a m)) = containers m"
  "abortedSignals (snd (run_resume a m)) = abortedSignals m"
  "defaultExecutionTimeoutMs (snd (run_resume a m)) = defaultExecutionTimeoutMs m"
  "idleSweepRunning (snd (run_resume a m)) = idleSweepRunning m"
  "sweepWait (snd (run_resume a m)) = sweepWait m"
  "idleSweepTimer (snd (run_resume a m)) = idleSweepTimer m"
  "clock (snd (run_resume a m)) = clock m"
  "maxContainers (snd (run_resume a m)) = maxContainers m"
  by (simp_all add: run_resume_def Let_def upd_fields run_finally_fields run_catch_fields
      bump_fields split: option.splits sum.splits)

text \<open>The synchronous calls.\<close>

definition enqueued :: "nat \<Rightarrow> op_name \<Rightarrow> op_options \<Rightarrow> managed_container \<Rightarrow> managed_container" where
  "enqueued n operation options c =
     c\<lparr>pendingOperations := pendingOperations c + 1,
       queue := queue c @ [OpTask n operation options],
       submitted := submitted c @ [n]\<rparr>"

lemma submit_cases:
  obtains (rejected) e where "submit operation k options m = (Inl e, m)"
  | (queued) a where "containers_get m k = Some a"
      "\<not> isFinalizingStatus (status (heap m ! a))"
      "fst (submit operation k options m) = Inr (a, chained (heap m ! a))"
      "heap (snd (submit operation k options m)) =
         (heap m)[a := enqueued (chained (heap m ! a)) operation options (heap m ! a)]"
      "containers (snd (submit operation k options m)) = containers m"
proof (cases "requireContainer m k")
  case (Inl e)
  then have "submit operation k options m = (Inl e, m)"
    by (simp add: submit_def)
  then show ?thesis by (rule rejected)
next
  case (Inr a)
  then have g: "containers_get m k = Some a" "\<not> isFinalizingStatus (status (heap m ! a))"
    by (auto simp: requireContainer_def isFinalizingStatus_def split: option.splits if_splits)
  show ?thesis
    by (rule queued [OF g])
      (simp_all add: submit_def Inr enqueue_def Let_def upd_fields enqueued_def)
qed

definition terminating :: "int \<Rightarrow> managed_container \<Rightarrow> managed_container" where
  "terminating t c = (set_status Terminating t c)\<lparr>queue := queue c @ [FinalizeTask]\<rparr>"

lemma terminate_cases:
  obtains (unknown) "containers_get m k = None" "terminate k m = (TDone False, m)"
  | (joined) a where "containers_get m k = Some a" "status (heap m ! a) = Terminating"
      "terminate k m = (TQueue a (chained (heap m ! a)) k, m)"
  | (stale) a where "containers_get m k = Some a" "status (heap m ! a) = Terminated"
      "terminate k m = (TDone True, containers_delete k m)"
  | (started) a where "containers_get m k = Some a"
      "\<not> isFinalizingStatus (status (heap m ! a))"
      "fst (terminate k m) = TTask a (Suc (chained (heap m ! a)))"
      "heap (snd (terminate k m)) = (heap m)[a := terminating (clock m (ticks m)) (heap m ! a)]"
      "containers (snd (terminate k m)) = containers m"
proof (cases "containers_get m k")
  case None
  then show ?thesis by (intro unknown) (simp_all add: terminate_def)
next
  case (Some a)
  consider "status (heap m ! a) = Terminating" | "status (heap m ! a) = Terminated"
    | "\<not> isFinalizingStatus (status (heap m ! a))"
    by (auto simp: isFinalizingStatus_def)
  then show ?thesis
  proof cases
    case 1
    then show ?thesis by (intro joined [OF Some]) (simp_all add: terminate_def Some)
  next
    case 2
    then show ?thesis by (intro stale [OF Some]) (simp_all add: terminate_def Some)
  next
    case 3
    have ch: "chained (set_status st t c) = chained c" for st t c
      by (simp add: chained_def set_status_fields)
    have h: "heap (snd (terminate k m)) =
        (heap m)[a := terminating (clock m (ticks m)) (heap m ! a)]"
      using 3
      by (cases "a < length (heap m)")
        (simp_all add: terminate_def Some Let_def isFinalizingStatus_def upd_fields
          setStatus_fields terminating_def set_status_fields list_update_beyond)
    have f: "fst (terminate k m) = TTask a (Suc (chained (heap m ! a)))"
      using 3
      by (simp add: terminate_def Some Let_def isFinalizingStatus_def setStatus_fields
          nth_list_update_self ch)
    have c: "containers (snd (terminate k m)) = containers m"
      using 3
      by (simp add: terminate_def Some Let_def isFinalizingStatus_def upd_fields
          setStatus_fields)
    show ?thesis by (rule started [OF Some 3 f h c])
  qed
qed

text \<open>A new object, as \<^verbatim>\<open>spawn\<close> builds it.\<close>

definition fresh :: "string \<Rightarrow> managed_container \<Rightarrow> bool" where
  "fresh k c =
     (cid c = k \<and> status c = Creating \<and> activeOperations c = 0 \<and> pendingOperations c = 0 \<and>
      queue c = [] \<and> current c = None \<and> completed c = 0 \<and> submitted c = [] \<and>
      begun c = [] \<and> ended c = [] \<and> working c = [] \<and> awaitingRuntime c \<noteq> None)"

lemma update_absent: "k \<notin> fst ` set xs \<Longrightarrow> AList.update k v xs = xs @ [(k, v)]"
  by (induction xs) auto

lemma spawn_cases:
  obtains (rejected) e where "fst (spawn so m) = Inl e" "heap (snd (spawn so m)) = heap m"
      "containers (snd (spawn so m)) = containers m"
  | (created) k c where "fst (spawn so m) = Inr (length (heap m))"
      "heap (snd (spawn so m)) = heap m @ [c]" "fresh k c"
      "k \<notin> fst ` set (containers m)"
      "containers (snd (spawn so m)) = containers m @ [(k, length (heap m))]"
proof (cases "fst (spawn so m)")
  case (Inl e)
  then have "heap (snd (spawn so m)) = heap m" "containers (snd (spawn so m)) = containers m"
    by (simp_all add: spawn_def Let_def case_prod_beta split: if_splits option.splits)
  then show ?thesis using Inl by (intro rejected)
next
  case (Inr a)
  define k where "k = (case sp_id so of Some k \<Rightarrow> k | None \<Rightarrow> idGenerator m (seq m))"
  have cap: "\<not> js_ge (Fin (real (length (containers m)))) (maxContainers m)"
    using Inr by (auto simp: spawn_def)
  have absent: "map_of (containers m) k = None"
    using Inr cap
    by (auto simp: spawn_def Let_def case_prod_beta k_def containers_get_def
        split: if_splits option.splits)
  then have notin: "k \<notin> fst ` set (containers m)"
    by (simp add: map_of_eq_None_iff)
  have "\<exists>c. heap (snd (spawn so m)) = heap m @ [c] \<and> fresh k c"
    using cap absent
    by (auto simp: spawn_def Let_def case_prod_beta k_def containers_get_def field_simps
        fresh_def split: option.splits)
  then obtain c where c: "heap (snd (spawn so m)) = heap m @ [c]" "fresh k c"
    by blast
  have a: "fst (spawn so m) = Inr (length (heap m))"
    using cap absent
    by (auto simp: spawn_def Let_def case_prod_beta k_def containers_get_def field_simps
        split: option.splits)
  have "containers (snd (spawn so m)) = AList.update k (length (heap m)) (containers m)"
    using cap absent
    by (auto simp: spawn_def Let_def case_prod_beta k_def containers_get_def field_simps
        split: option.splits)
  then have r: "containers (snd (spawn so m)) = containers m @ [(k, length (heap m))]"
    by (simp add: update_absent [OF notin])
  show ?thesis by (rule created [OF a c notin r])
qed

lemma clone_cases:
  obtains (rejected) e where "fst (clone k0 so m) = Inl e" "heap (snd (clone k0 so m)) = heap m"
      "containers (snd (clone k0 so m)) = containers m"
  | (created) k c where "fst (clone k0 so m) = Inr (length (heap m))"
      "heap (snd (clone k0 so m)) = heap m @ [c]" "fresh k c"
      "k \<notin> fst ` set (containers m)"
      "containers (snd (clone k0 so m)) = containers m @ [(k, length (heap m))]"
proof (cases "requireContainer m k0")
  case (Inl e)
  then have "clone k0 so m = (Inl e, m)" by (simp add: clone_def)
  then show ?thesis by (intro rejected [of e]) simp_all
next
  case (Inr a)
  then obtain so' where "clone k0 so m = spawn so' m"
    by (simp add: clone_def Let_def)
  then show ?thesis
    using spawn_cases [of so' m] rejected created by metis
qed

text \<open>The continuation of \<^verbatim>\<open>spawn\<close> changes fields the chain does not read.\<close>

definition same_chain :: "managed_container \<Rightarrow> managed_container \<Rightarrow> bool" where
  "same_chain c c' =
     (cid c' = cid c \<and> activeOperations c' = activeOperations c \<and>
      pendingOperations c' = pendingOperations c \<and> queue c' = queue c \<and>
      current c' = current c \<and> completed c' = completed c \<and> submitted c' = submitted c \<and>
      begun c' = begun c \<and> ended c' = ended c \<and> working c' = working c)"

lemma same_chain_set_status: "same_chain c c' \<Longrightarrow> same_chain c (set_status st t c')"
  by (simp add: same_chain_def set_status_fields)

lemma spawn_catch_heap:
  "a < length (heap m) \<Longrightarrow>
   \<exists>c'. heap (snd (spawn_catch a msg m)) = (heap m)[a := c'] \<and>
        same_chain (heap m ! a) c' \<and> status c' = Errored"
  by (auto simp: spawn_catch_def Let_def field_simps setStatus_fields list_update_twice_self
      same_chain_def set_status_fields split: option.splits runtime.splits)

lemma spawn_resume_heap:
  assumes len: "a < length (heap m)"
  shows "heap (snd (spawn_resume a outcome m)) = heap m \<or>
   (\<exists>c'. heap (snd (spawn_resume a outcome m)) = (heap m)[a := c'] \<and>
         same_chain (heap m ! a) c' \<and> status c' \<noteq> Terminating)"
proof (cases "awaitingRuntime (heap m ! a)")
  case None
  then show ?thesis by (simp add: spawn_resume_def)
next
  case (Some d)
  show ?thesis
  proof (cases outcome)
    case (Constructed rt)
    then show ?thesis
      using Some len
      by (auto simp: spawn_resume_def Let_def field_simps setStatus_fields
          same_chain_def set_status_fields)
  next
    case (ConstructFailed msg)
    define m0 where "m0 = upd a (\<lambda>c. c\<lparr>awaitingRuntime := None\<rparr>) m"
    have "a < length (heap m0)"
      using len by (simp add: m0_def upd_fields)
    then obtain c' where c': "heap (snd (spawn_catch a msg m0)) = (heap m0)[a := c']"
      "same_chain (heap m0 ! a) c'" "status c' = Errored"
      using spawn_catch_heap [of a m0 msg] by blast
    have "heap (snd (spawn_resume a outcome m)) = (heap m)[a := c']"
      using Some ConstructFailed c'(1)
      by (simp add: spawn_resume_def Let_def case_prod_beta m0_def upd_fields)
    moreover have "same_chain (heap m ! a) c'"
      using c'(2) by (auto simp: m0_def upd_fields same_chain_def nth_list_update_self
          split: if_splits)
    ultimately show ?thesis using c'(3) by auto
  next
    case (PackageManagerFailed rt msg)
    define m0 where "m0 = upd a (\<lambda>c. c\<lparr>runtime := Some rt,
        runtimeMode := detectRuntimeMode rt\<rparr>) (upd a (\<lambda>c. c\<lparr>awaitingRuntime := None\<rparr>) m)"
    have "a < length (heap m0)"
      using len by (simp add: m0_def upd_fields)
    then obtain c' where c': "heap (snd (spawn_catch a msg m0)) = (heap m0)[a := c']"
      "same_chain (heap m0 ! a) c'" "status c' = Errored"
      using spawn_catch_heap [of a m0 msg] by blast
    have "heap (snd (spawn_resume a outcome m)) = (heap m)[a := c']"
      using Some PackageManagerFailed c'(1)
      by (simp add: spawn_resume_def Let_def case_prod_beta m0_def upd_fields)
    moreover have "same_chain (heap m ! a) c'"
      using c'(2) by (auto simp: m0_def upd_fields same_chain_def nth_list_update_self
          split: if_splits)
    ultimately show ?thesis using c'(3) by auto
  qed
qed

lemma spawn_resume_registry:
  "a < length (heap m) \<Longrightarrow>
   containers (snd (spawn_resume a outcome m)) = containers m \<or>
   containers (snd (spawn_resume a outcome m)) = AList.delete (cid (heap m ! a)) (containers m)"
  by (auto simp: spawn_resume_def Let_def case_prod_beta field_simps setStatus_fields
      spawn_catch_registry split: option.splits construct_outcome.splits)

section \<open>Invariants of the chain\<close>

fun tickets :: "task list \<Rightarrow> nat list" where
  "tickets [] = []"
| "tickets (OpTask n _ _ # q) = n # tickets q"
| "tickets (FinalizeTask # q) = tickets q"

lemma tickets_append: "tickets (q @ q') = tickets q @ tickets q'"
  by (induction q rule: tickets.induct) simp_all

text \<open>The operation in flight, as a list of at most one ticket.\<close>

definition in_flight :: "managed_container \<Rightarrow> nat list" where
  "in_flight c = (case current c of None \<Rightarrow> [] | Some fl \<Rightarrow> [op_ticket fl])"

text \<open>The counters agree with the chain: \<^verbatim>\<open>activeOperations\<close> counts the operation in
  flight, and \<^verbatim>\<open>pendingOperations\<close> is at least that plus the operations that wait.\<close>

definition counts_ok :: "managed_container \<Rightarrow> bool" where
  "counts_ok c =
     (activeOperations c = int (length (in_flight c)) \<and>
      activeOperations c + int (length (tickets (queue c))) \<le> pendingOperations c)"

text \<open>The record of what happened agrees with the chain: the operations submitted
  are the ones begun followed by the ones that wait, in this order; the ones begun
  are the ones ended followed by the one in flight.\<close>

definition seq_ok :: "managed_container \<Rightarrow> bool" where
  "seq_ok c =
     (submitted c = begun c @ tickets (queue c) \<and>
      begun c = map fst (ended c) @ in_flight c)"

text \<open>Tickets are positions of the chain, and are not reused.\<close>

definition tickets_ok :: "managed_container \<Rightarrow> bool" where
  "tickets_ok c = ((\<forall>n \<in> set (submitted c). n < chained c) \<and> distinct (submitted c))"

lemma tickets_ok_mono:
  assumes "tickets_ok c" "submitted c' = submitted c" "chained c \<le> chained c'"
  shows "tickets_ok c'"
  using assms unfolding tickets_ok_def by fastforce

lemma tickets_ok_enqueue:
  assumes "tickets_ok c" "submitted c' = submitted c @ [chained c]"
    "chained c' = Suc (chained c)"
  shows "tickets_ok c'"
  using assms unfolding tickets_ok_def by fastforce

text \<open>No timer is armed for options whose \<^verbatim>\<open>timeoutMs\<close> is given and is not a finite
  positive number, and an operation with such options has ended with a value, an abort
  error, an error of its task, or the refusal of \<^verbatim>\<open>run\<close>.\<close>

definition unarmed :: "op_options \<Rightarrow> bool" where
  "unarmed options =
     (case timeoutMs options of None \<Rightarrow> False
      | Some t \<Rightarrow> \<not> (isFinite t \<and> js_gt t (Fin 0)))"

definition no_timeout :: "error + val \<Rightarrow> bool" where
  "no_timeout r = (case r of Inl e \<Rightarrow> \<not> is_timeout e | Inr _ \<Rightarrow> True)"

text \<open>An error thrown by the task of an operation: by its guard or by the external
  work.\<close>

fun is_work_error :: "error \<Rightarrow> bool" where
  "is_work_error (WorkError _) = True"
| "is_work_error (RuntimeNotInitialized _) = True"
| "is_work_error (NpmNotInitialized _) = True"
| "is_work_error _ = False"

definition abort_or_work :: "error + val \<Rightarrow> bool" where
  "abort_or_work r = (case r of Inl e \<Rightarrow> is_aborted e \<or> is_work_error e | Inr _ \<Rightarrow> True)"

lemma abort_or_work_no_timeout: "abort_or_work r \<Longrightarrow> no_timeout r"
  by (cases r) (auto simp: abort_or_work_def no_timeout_def elim: is_work_error.elims is_aborted.elims)

text \<open>The error of an operation that \<^verbatim>\<open>run\<close> refuses before it starts, because the
  container is terminating or terminated.\<close>

fun is_refusal :: "error \<Rightarrow> bool" where
  "is_refusal (IsFinalizing _ _) = True"
| "is_refusal _ = False"

definition refused_by_run :: "error + val \<Rightarrow> bool" where
  "refused_by_run r = (case r of Inl e \<Rightarrow> is_refusal e | Inr _ \<Rightarrow> False)"

lemma refused_by_run_no_timeout: "refused_by_run r \<Longrightarrow> no_timeout r"
  by (cases r) (auto simp: refused_by_run_def no_timeout_def elim: is_refusal.elims)

definition timer_ok :: "managed_container \<Rightarrow> bool" where
  "timer_ok c =
     ((\<forall>fl. current c = Some fl \<longrightarrow> unarmed (op_opts fl) \<longrightarrow>
          timer fl = None \<and> (\<forall>r. settled fl = Some r \<longrightarrow> abort_or_work r)) \<and>
      (\<forall>x \<in> set (ended c). unarmed (fst (snd x)) \<longrightarrow>
          abort_or_work (snd (snd x)) \<or> refused_by_run (snd (snd x))))"

text \<open>A record in status \<^verbatim>\<open>terminating\<close> has its \<^verbatim>\<open>finalize\<close> task waiting, and a pending
  promise has its work running.\<close>

definition final_ok :: "managed_container \<Rightarrow> bool" where
  "final_ok c =
     ((status c = Terminating \<longrightarrow> FinalizeTask \<in> set (queue c)) \<and>
      (\<forall>fl. current c = Some fl \<longrightarrow> settled fl = None \<longrightarrow> op_ticket fl \<in> set (working c)))"

definition object_ok :: "managed_container \<Rightarrow> bool" where
  "object_ok c = (counts_ok c \<and> seq_ok c \<and> tickets_ok c \<and> timer_ok c \<and> final_ok c)"

lemma same_chain_ok:
  assumes "object_ok c" "same_chain c c'" "status c' = status c \<or> status c' \<noteq> Terminating"
  shows "object_ok c'"
proof -
  have eqs: "activeOperations c' = activeOperations c"
    "pendingOperations c' = pendingOperations c" "queue c' = queue c"
    "current c' = current c" "completed c' = completed c" "submitted c' = submitted c"
    "begun c' = begun c" "ended c' = ended c" "working c' = working c"
    using assms(2) by (simp_all add: same_chain_def)
  have der: "in_flight c' = in_flight c" "chained c' = chained c"
    by (simp_all add: in_flight_def chained_def eqs)
  have "counts_ok c' = counts_ok c" "seq_ok c' = seq_ok c" "tickets_ok c' = tickets_ok c"
    "timer_ok c' = timer_ok c"
    by (simp_all add: counts_ok_def seq_ok_def tickets_ok_def timer_ok_def eqs der)
  moreover have "final_ok c'"
    using assms(1,3) by (auto simp: object_ok_def final_ok_def eqs)
  ultimately show ?thesis using assms(1) by (simp add: object_ok_def)
qed

lemma fresh_ok: "fresh k c \<Longrightarrow> object_ok c"
  unfolding object_ok_def counts_ok_def seq_ok_def tickets_ok_def timer_ok_def final_ok_def
    fresh_def in_flight_def
  by simp

lemma same_chain_set_status_self: "same_chain c (set_status st t c)"
  by (simp add: same_chain_def set_status_fields)

lemma enqueued_ok:
  assumes "object_ok c" "\<not> isFinalizingStatus (status c)"
  shows "object_ok (enqueued (chained c) operation options c)"
proof -
  let ?c = "enqueued (chained c) operation options c"
  have f: "in_flight ?c = in_flight c" "chained ?c = Suc (chained c)"
    "submitted ?c = submitted c @ [chained c]"
    by (simp_all add: enqueued_def in_flight_def chained_def)
  have "counts_ok ?c"
    using assms(1) by (simp add: object_ok_def counts_ok_def f tickets_append)
      (simp add: enqueued_def tickets_append)
  moreover have "seq_ok ?c"
    using assms(1) by (simp add: object_ok_def seq_ok_def f)
      (simp add: enqueued_def tickets_append)
  moreover have "tickets_ok ?c"
    using assms(1) tickets_ok_enqueue [OF _ f(3) f(2)] by (simp add: object_ok_def)
  moreover have "timer_ok ?c"
    using assms(1) by (simp add: object_ok_def timer_ok_def enqueued_def)
  moreover have "final_ok ?c"
    using assms by (simp add: object_ok_def final_ok_def enqueued_def isFinalizingStatus_def)
  ultimately show ?thesis by (simp add: object_ok_def)
qed

lemma terminating_ok:
  assumes "object_ok c"
  shows "object_ok (terminating t c)"
proof -
  let ?c = "terminating t c"
  have f: "in_flight ?c = in_flight c" "chained ?c = Suc (chained c)"
    "submitted ?c = submitted c"
    by (simp_all add: terminating_def in_flight_def chained_def set_status_fields)
  have "counts_ok ?c"
    using assms by (simp add: object_ok_def counts_ok_def f)
      (simp add: terminating_def tickets_append set_status_fields)
  moreover have "seq_ok ?c"
    using assms by (simp add: object_ok_def seq_ok_def f)
      (simp add: terminating_def tickets_append set_status_fields)
  moreover have "tickets_ok ?c"
    using assms tickets_ok_mono [OF _ f(3)] by (simp add: object_ok_def f)
  moreover have "timer_ok ?c"
    using assms by (simp add: object_ok_def timer_ok_def terminating_def set_status_fields)
  moreover have "final_ok ?c"
    using assms by (simp add: object_ok_def final_ok_def terminating_def set_status_fields)
  ultimately show ?thesis by (simp add: object_ok_def)
qed

lemma refused_ok:
  assumes "object_ok c" "current c = None" "queue c = OpTask n operation options # rest"
    "isFinalizingStatus (status c)"
  shows "object_ok (refused n options (c\<lparr>queue := rest\<rparr>))"
proof -
  let ?c = "refused n options (c\<lparr>queue := rest\<rparr>)"
  have f: "in_flight ?c = []" "in_flight c = []" "chained ?c = chained c"
    "submitted ?c = submitted c"
    using assms(2,3) by (simp_all add: refused_def in_flight_def chained_def)
  have "counts_ok ?c"
    using assms(1,3) by (simp add: object_ok_def counts_ok_def f) (simp add: refused_def)
  moreover have "seq_ok ?c"
    using assms(1,3) by (simp add: object_ok_def seq_ok_def f) (simp add: refused_def)
  moreover have "tickets_ok ?c"
    using assms(1) tickets_ok_mono [OF _ f(4)] by (simp add: object_ok_def f)
  moreover have "timer_ok ?c"
    using assms(1,2) by (simp add: object_ok_def timer_ok_def refused_def refused_by_run_def)
  moreover have "final_ok ?c"
    using assms(1-3) by (auto simp: object_ok_def final_ok_def refused_def)
  ultimately show ?thesis by (simp add: object_ok_def)
qed

lemma finalized_fields:
  "cid (finalized t c) = cid c"
  "activeOperations (finalized t c) = activeOperations c"
  "pendingOperations (finalized t c) = pendingOperations c"
  "queue (finalized t c) = queue c"
  "current (finalized t c) = current c"
  "completed (finalized t c) = completed c"
  "status (finalized t c) = Terminated"
  "submitted (finalized t c) = submitted c"
  "begun (finalized t c) = begun c"
  "ended (finalized t c) = ended c"
  "working (finalized t c) = working c"
  by (simp_all add: finalized_def set_status_fields split: option.splits runtime.splits)

lemma finalized_ok:
  assumes "object_ok c" "current c = None" "queue c = FinalizeTask # rest"
  shows "object_ok ((finalized t (c\<lparr>queue := rest\<rparr>))\<lparr>completed := Suc (completed c)\<rparr>)"
proof -
  let ?c = "(finalized t (c\<lparr>queue := rest\<rparr>))\<lparr>completed := Suc (completed c)\<rparr>"
  have f: "in_flight ?c = []" "in_flight c = []" "chained ?c = chained c"
    "submitted ?c = submitted c"
    using assms(2,3) by (simp_all add: finalized_fields in_flight_def chained_def)
  have "counts_ok ?c"
    using assms(1,3) by (simp add: object_ok_def counts_ok_def f) (simp add: finalized_fields)
  moreover have "seq_ok ?c"
    using assms(1,3) by (simp add: object_ok_def seq_ok_def f) (simp add: finalized_fields)
  moreover have "tickets_ok ?c"
    using assms(1) tickets_ok_mono [OF _ f(4)] by (simp add: object_ok_def f)
  moreover have "timer_ok ?c"
    using assms(1,2) by (simp add: object_ok_def timer_ok_def finalized_fields)
  moreover have "final_ok ?c"
    using assms(1,2) by (simp add: object_ok_def final_ok_def finalized_fields)
  ultimately show ?thesis by (simp add: object_ok_def)
qed

lemma runWithControls_fields:
  "op_ticket (runWithControls m c n operation options t) = n"
  "op_opts (runWithControls m c n operation options t) = options"
  "op_kind (runWithControls m c n operation options t) = operation"
  by (simp_all add: runWithControls_def Let_def split: option.splits)

lemma runWithControls_unarmed:
  assumes "unarmed options"
  shows "timer (runWithControls m c n operation options t) = None"
    and "settled (runWithControls m c n operation options t) = Some r \<Longrightarrow> abort_or_work r"
  using assms
  by (auto simp: runWithControls_def Let_def unarmed_def abort_or_work_def task_guard_def
      split: option.splits if_splits)

lemma entered_ok:
  assumes "object_ok c" "current c = None" "queue c = OpTask n operation options # rest"
    and fl: "fl = runWithControls m c n operation options t"
  shows "object_ok (entered fl n (admit t t' (c\<lparr>queue := rest\<rparr>)))"
proof -
  let ?c = "entered fl n (admit t t' (c\<lparr>queue := rest\<rparr>))"
  have f: "in_flight ?c = [n]" "in_flight c = []" "chained ?c = chained c"
    "submitted ?c = submitted c"
    using assms(2,3)
    by (simp_all add: entered_def admit_fields in_flight_def chained_def fl
        runWithControls_fields)
  have "counts_ok ?c"
    using assms(1,3) by (simp add: object_ok_def counts_ok_def f)
      (simp add: entered_def admit_fields)
  moreover have "seq_ok ?c"
    using assms(1,3) by (simp add: object_ok_def seq_ok_def f)
      (simp add: entered_def admit_fields)
  moreover have "tickets_ok ?c"
    using assms(1) tickets_ok_mono [OF _ f(4)] by (simp add: object_ok_def f)
  moreover have "timer_ok ?c"
    using assms(1) runWithControls_unarmed [of options m c n operation t]
    by (auto simp: object_ok_def timer_ok_def entered_def admit_fields fl
        runWithControls_fields)
  moreover have "final_ok ?c"
    using assms(1)
    by (simp add: object_ok_def final_ok_def entered_def admit_fields fl
        runWithControls_fields)
  ultimately show ?thesis by (simp add: object_ok_def)
qed

lemma settle_fields:
  "op_ticket (settle r fl) = op_ticket fl"
  "op_opts (settle r fl) = op_opts fl"
  "op_kind (settle r fl) = op_kind fl"
  "settled (settle r fl) = (if settled fl = None then Some r else settled fl)"
  "timer (settle r fl) = (if settled fl = None then None else timer fl)"
  by (simp_all add: settle_def)

lemma settled_ok:
  assumes "object_ok c" "current c = Some fl" "unarmed (op_opts fl) \<longrightarrow> abort_or_work r"
  shows "object_ok (c\<lparr>current := Some (settle r fl)\<rparr>)"
proof -
  let ?c = "c\<lparr>current := Some (settle r fl)\<rparr>"
  have f: "in_flight ?c = in_flight c" "chained ?c = chained c" "submitted ?c = submitted c"
    using assms(2) by (simp_all add: in_flight_def chained_def settle_fields)
  have "counts_ok ?c = counts_ok c" "seq_ok ?c = seq_ok c" "tickets_ok ?c = tickets_ok c"
    by (simp_all add: counts_ok_def seq_ok_def tickets_ok_def f)
  moreover have "timer_ok ?c"
    using assms by (auto simp: object_ok_def timer_ok_def settle_fields split: if_splits)
  moreover have "final_ok ?c"
    using assms(1,2) by (auto simp: object_ok_def final_ok_def settle_fields split: if_splits)
  ultimately show ?thesis using assms(1) by (simp add: object_ok_def)
qed

lemma timer_fired_ok:
  assumes "object_ok c"
  shows "object_ok (case current c of
                   None \<Rightarrow> c
                 | Some fl \<Rightarrow>
                     (case timer fl of
                        None \<Rightarrow> c
                      | Some d \<Rightarrow>
                          c\<lparr>current := Some (settle
                              (Inl (OperationTimeoutError (op_kind fl) (cid c) d)) fl)\<rparr>))"
proof (cases "current c")
  case None
  then show ?thesis using assms by simp
next
  case (Some fl)
  show ?thesis
  proof (cases "timer fl")
    case None
    then show ?thesis using assms Some by simp
  next
    case (Some d)
    have "\<not> unarmed (op_opts fl)"
      using assms \<open>current c = Some fl\<close> Some by (auto simp: object_ok_def timer_ok_def)
    then show ?thesis
      using settled_ok [OF assms \<open>current c = Some fl\<close>] Some \<open>current c = Some fl\<close>
      by simp
  qed
qed

lemma on_abort_ok:
  assumes "object_ok c"
  shows "object_ok (on_abort sg c)"
proof (cases "current c")
  case None
  then show ?thesis using assms by (simp add: on_abort_def)
next
  case (Some fl)
  show ?thesis
    using settled_ok [OF assms Some, of "Inl (OperationAbortedError (op_kind fl) (cid c) False)"]
      assms Some
    by (simp add: on_abort_def abort_or_work_def)
qed

lemma on_abort_cid: "cid (on_abort sg c) = cid c"
  by (simp add: on_abort_def split: option.splits)

lemma work_done_ok:
  assumes "object_ok c"
  shows "object_ok ((case current c of
                         None \<Rightarrow> c
                       | Some fl \<Rightarrow>
                           if op_ticket fl = n
                           then c\<lparr>current := Some (settle
                                    (case res of Inl msg \<Rightarrow> Inl (WorkError msg)
                                     | Inr v \<Rightarrow> Inr v) fl)\<rparr>
                           else c)\<lparr>working := removeAll n (working c)\<rparr>)"
proof -
  define r :: "error + val" where
    "r = (case res of Inl msg \<Rightarrow> Inl (WorkError msg) | Inr v \<Rightarrow> Inr v)"
  define c1 where "c1 = (case current c of None \<Rightarrow> c
      | Some fl \<Rightarrow> if op_ticket fl = n then c\<lparr>current := Some (settle r fl)\<rparr> else c)"
  have nt: "abort_or_work r"
    by (simp add: r_def abort_or_work_def split: sum.splits)
  have ok1: "object_ok c1"
    using assms settled_ok [OF assms _ impI [OF nt]]
    by (auto simp: c1_def split: option.splits)
  have safe: "\<forall>fl. current c1 = Some fl \<longrightarrow> settled fl = None \<longrightarrow> op_ticket fl \<noteq> n"
    by (auto simp: c1_def settle_fields split: option.splits if_splits)
  let ?c = "c1\<lparr>working := removeAll n (working c1)\<rparr>"
  have "counts_ok ?c = counts_ok c1" "seq_ok ?c = seq_ok c1" "tickets_ok ?c = tickets_ok c1"
    "timer_ok ?c = timer_ok c1"
    by (simp_all add: counts_ok_def seq_ok_def tickets_ok_def timer_ok_def in_flight_def
        chained_def)
  moreover have "final_ok ?c"
    using ok1 safe by (auto simp: object_ok_def final_ok_def)
  ultimately have "object_ok ?c"
    using ok1 by (simp add: object_ok_def)
  moreover have "working c1 = working c"
    by (simp add: c1_def split: option.splits)
  ultimately show ?thesis
    unfolding c1_def r_def by simp
qed

lemma resumed_fields:
  "cid (resumed fl r t t' c) = cid c"
  "activeOperations (resumed fl r t t' c) = max 0 (activeOperations c - 1)"
  "pendingOperations (resumed fl r t t' c) = max 0 (pendingOperations c - 1)"
  "queue (resumed fl r t t' c) = queue c"
  "current (resumed fl r t t' c) = None"
  "completed (resumed fl r t t' c) = Suc (completed c)"
  "submitted (resumed fl r t t' c) = submitted c"
  "begun (resumed fl r t t' c) = begun c"
  "ended (resumed fl r t t' c) = ended c @ [(op_ticket fl, op_opts fl, r)]"
  "working (resumed fl r t t' c) = working c"
  "status (resumed fl r t t' c) =
     (if isFinalizingStatus (status c) then status c
      else if 1 < activeOperations c then Busy else Ready)"
  by (auto simp: resumed_def Let_def set_status_fields split: sum.splits)

lemma resumed_ok:
  assumes "object_ok c" "current c = Some fl" "settled fl = Some r"
  shows "object_ok (resumed fl r t t' c)"
proof -
  let ?c = "resumed fl r t t' c"
  have f: "in_flight ?c = []" "in_flight c = [op_ticket fl]" "chained ?c = chained c"
    "submitted ?c = submitted c"
    using assms(2) by (simp_all add: resumed_fields in_flight_def chained_def)
  have "counts_ok ?c"
    using assms(1) by (simp add: object_ok_def counts_ok_def f) (simp add: resumed_fields)
  moreover have "seq_ok ?c"
    using assms(1) by (simp add: object_ok_def seq_ok_def f) (simp add: resumed_fields)
  moreover have "tickets_ok ?c"
    using assms(1) tickets_ok_mono [OF _ f(4)] by (simp add: object_ok_def f)
  moreover have "timer_ok ?c"
    using assms by (auto simp: object_ok_def timer_ok_def resumed_fields)
  moreover have "final_ok ?c"
    using assms(1)
    by (auto simp: object_ok_def final_ok_def resumed_fields isFinalizingStatus_def)
  ultimately show ?thesis by (simp add: object_ok_def)
qed

section \<open>Invariants of the manager\<close>

definition heap_ok :: "manager \<Rightarrow> bool" where
  "heap_ok m = (\<forall>c \<in> set (heap m). object_ok c)"

definition wf :: "manager \<Rightarrow> bool" where
  "wf m = (heap_ok m \<and> registry_ok m)"

lemma wf_cong:
  "heap m' = heap m \<Longrightarrow> containers m' = containers m \<Longrightarrow> wf m' = wf m"
  by (simp add: wf_def heap_ok_def registry_ok_def)

lemma heap_ok_nth: "heap_ok m \<Longrightarrow> a < length (heap m) \<Longrightarrow> object_ok (heap m ! a)"
  by (simp add: heap_ok_def)

lemma wf_nth: "wf m \<Longrightarrow> a < length (heap m) \<Longrightarrow> object_ok (heap m ! a)"
  by (simp add: wf_def heap_ok_nth)

lemma registry_ok_delete:
  assumes "registry_ok m" "heap m' = heap m" "containers m' = AList.delete k (containers m)"
  shows "registry_ok m'"
proof -
  have "set (containers m') \<subseteq> set (containers m)"
    by (auto simp: assms(3) AList.delete_eq)
  moreover have "distinct (map fst (containers m'))"
    using assms(1) by (simp add: assms(3) registry_ok_def distinct_delete)
  ultimately show ?thesis
    using assms(1) unfolding registry_ok_def assms(2) by blast
qed

lemma wf_update:
  assumes "wf m" "heap m' = (heap m)[a := c']"
    and "a < length (heap m) \<Longrightarrow> object_ok c' \<and> cid c' = cid (heap m ! a)"
    and "containers m' = containers m \<or> (\<exists>k. containers m' = AList.delete k (containers m))"
  shows "wf m'"
proof -
  have h: "heap_ok m'"
  proof (cases "a < length (heap m)")
    case True
    then have "set (heap m') \<subseteq> insert c' (set (heap m))"
      by (simp add: assms(2) set_update_subset_insert)
    then show ?thesis
      using assms(1,3) True unfolding heap_ok_def wf_def by blast
  next
    case False
    then show ?thesis
      using assms(1) by (simp add: heap_ok_def wf_def assms(2) list_update_beyond)
  qed
  define m1 where "m1 = m\<lparr>heap := heap m'\<rparr>"
  have ids: "length (heap m') = length (heap m)"
    "\<And>b. b < length (heap m) \<Longrightarrow> cid (heap m' ! b) = cid (heap m ! b)"
  proof -
    show "length (heap m') = length (heap m)" by (simp add: assms(2))
    fix b assume b: "b < length (heap m)"
    show "cid (heap m' ! b) = cid (heap m ! b)"
    proof (cases "b = a")
      case True
      then show ?thesis using assms(3) b by (simp add: assms(2))
    next
      case False
      then show ?thesis by (simp add: assms(2))
    qed
  qed
  have r1: "registry_ok m1"
    using assms(1) ids unfolding registry_ok_def wf_def m1_def by simp
  have "registry_ok m'"
    using assms(4)
  proof
    assume "containers m' = containers m"
    then show ?thesis
      using r1 by (simp add: registry_ok_def m1_def)
  next
    assume "\<exists>k. containers m' = AList.delete k (containers m)"
    then obtain k where "containers m' = AList.delete k (containers m1)"
      by (auto simp: m1_def)
    then show ?thesis
      using registry_ok_delete [OF r1, of m' k] by (simp add: m1_def)
  qed
  then show ?thesis using h by (simp add: wf_def)
qed

lemma wf_append:
  assumes "wf m" "heap m' = heap m @ [c]" "fresh k c" "k \<notin> fst ` set (containers m)"
    "containers m' = containers m @ [(k, length (heap m))]"
  shows "wf m'"
proof -
  have "heap_ok m'"
    using assms(1) fresh_ok [OF assms(3)] by (simp add: heap_ok_def wf_def assms(2))
  moreover have "registry_ok m'"
    using assms(1,3,4)
    unfolding registry_ok_def wf_def assms(2,5) fresh_def
    by (auto simp: nth_append)
  ultimately show ?thesis by (simp add: wf_def)
qed

lemma wf_delete:
  assumes "wf m"
  shows "wf (containers_delete k m)"
  using assms registry_ok_delete [of m "containers_delete k m" k]
  by (simp add: wf_def heap_ok_def containers_delete_fields)

lemma terminating_cid: "cid (terminating t c) = cid c"
  by (simp add: terminating_def set_status_fields)

lemma wf_terminate:
  assumes "wf m"
  shows "wf (snd (terminate k m))"
proof (cases rule: terminate_cases [of m k])
  case unknown
  then show ?thesis using assms by simp
next
  case (joined a)
  then show ?thesis using assms by simp
next
  case (stale a)
  then show ?thesis using assms by (simp add: wf_delete)
next
  case (started a)
  show ?thesis
    by (rule wf_update [OF assms started(4)])
      (simp_all add: started(5) terminating_ok wf_nth [OF assms] terminating_cid)
qed

lemma wf_terminate_fold:
  "wf m \<Longrightarrow> wf (fold (\<lambda>k m. snd (terminate k m)) ks m)"
  by (induction ks arbitrary: m) (simp_all add: wf_terminate)

lemma wf_spawn:
  assumes "wf m"
  shows "wf (snd (spawn so m))"
proof (cases rule: spawn_cases [of so m])
  case (rejected e)
  then show ?thesis using assms wf_cong by blast
next
  case (created k c)
  then show ?thesis using assms wf_append by blast
qed

lemma wf_clone:
  assumes "wf m"
  shows "wf (snd (clone k0 so m))"
proof (cases rule: clone_cases [of k0 so m])
  case (rejected e)
  then show ?thesis using assms wf_cong by blast
next
  case (created k c)
  then show ?thesis using assms wf_append by blast
qed

lemma wf_spawn_resume:
  assumes "wf m" "a < length (heap m)"
  shows "wf (snd (spawn_resume a outcome m))"
proof -
  have reg: "containers (snd (spawn_resume a outcome m)) = containers m \<or>
      (\<exists>k. containers (snd (spawn_resume a outcome m)) = AList.delete k (containers m))"
    using spawn_resume_registry [OF assms(2), of outcome] by blast
  from spawn_resume_heap [OF assms(2), of outcome]
  show ?thesis
  proof
    assume h: "heap (snd (spawn_resume a outcome m)) = heap m"
    then have "heap (snd (spawn_resume a outcome m)) = (heap m)[a := heap m ! a]"
      by simp
    then show ?thesis
      by (rule wf_update [OF assms(1)]) (simp_all add: reg wf_nth [OF assms])
  next
    assume "\<exists>c'. heap (snd (spawn_resume a outcome m)) = (heap m)[a := c'] \<and>
         same_chain (heap m ! a) c' \<and> status c' \<noteq> Terminating"
    then obtain c' where c': "heap (snd (spawn_resume a outcome m)) = (heap m)[a := c']"
      "same_chain (heap m ! a) c'" "status c' \<noteq> Terminating"
      by blast
    have "object_ok c'"
      using same_chain_ok [OF wf_nth [OF assms] c'(2)] c'(3) by simp
    moreover have "cid c' = cid (heap m ! a)"
      using c'(2) by (simp add: same_chain_def)
    ultimately show ?thesis
      using wf_update [OF assms(1) c'(1) _ reg] by simp
  qed
qed

lemma enqueued_cid: "cid (enqueued n operation options c) = cid c"
  by (simp add: enqueued_def)

lemma wf_submit:
  assumes "wf m"
  shows "wf (snd (submit operation k options m))"
proof (cases rule: submit_cases [of operation k options m])
  case (rejected e)
  then show ?thesis using assms by simp
next
  case (queued a)
  show ?thesis
    by (rule wf_update [OF assms queued(4)])
      (simp_all add: queued(2,5) enqueued_ok wf_nth [OF assms] enqueued_cid)
qed

lemma wf_snapshot:
  assumes "wf m"
  shows "wf (snd (snapshot k m))"
proof (cases "requireContainer m k")
  case (Inl e)
  then show ?thesis using assms by (simp add: snapshot_def)
next
  case (Inr a)
  have "object_ok ((heap m ! a)\<lparr>lastUsedAt := t, updatedAt := t'\<rparr>)"
    if "a < length (heap m)" for t t'
    by (rule same_chain_ok [OF wf_nth [OF assms that]]) (simp_all add: same_chain_def)
  then show ?thesis
    using wf_update [OF assms, of "snd (snapshot k m)" a]
    by (simp add: snapshot_state [OF Inr])
qed

lemma wf_dispatch:
  assumes "wf m" "a < length (heap m)"
  shows "wf (snd (dispatch a m))"
proof -
  note ok = wf_nth [OF assms]
  consider (idle) "current (heap m ! a) \<noteq> None \<or> queue (heap m ! a) = []"
    | (fin) rest where "current (heap m ! a) = None" "queue (heap m ! a) = FinalizeTask # rest"
    | (adm) n operation options rest where "current (heap m ! a) = None"
        "queue (heap m ! a) = OpTask n operation options # rest"
        "\<not> isFinalizingStatus (status (heap m ! a))"
    | (ref) n operation options rest where "current (heap m ! a) = None"
        "queue (heap m ! a) = OpTask n operation options # rest"
        "isFinalizingStatus (status (heap m ! a))"
    by (cases "queue (heap m ! a)"; cases "hd (queue (heap m ! a))") auto
  then show ?thesis
  proof cases
    case idle
    then show ?thesis using assms(1) by (simp add: dispatch_idle)
  next
    case (fin rest)
    show ?thesis
      by (rule wf_update [OF assms(1) dispatch_finalize(1) [OF assms(2) fin]])
        (use finalized_ok [OF ok fin] dispatch_finalize(2) [OF assms(2) fin]
          in \<open>auto simp: finalized_fields\<close>)
  next
    case (adm n operation options rest)
    have reg: "containers (snd (dispatch a m)) = containers m"
      using adm by (simp add: dispatch_def run_enter_other upd_fields)
    show ?thesis
      by (rule wf_update [OF assms(1) dispatch_admitted(1) [OF assms(2) adm]])
        (use entered_ok [OF ok adm(1,2) refl] reg
          in \<open>auto simp: entered_def admit_fields\<close>)
  next
    case (ref n operation options rest)
    have reg: "containers (snd (dispatch a m)) = containers m"
      using ref by (simp add: dispatch_def run_enter_other upd_fields)
    show ?thesis
      by (rule wf_update [OF assms(1) dispatch_refused(1) [OF assms(2) ref]])
        (use refused_ok [OF ok ref] reg in \<open>auto simp: refused_def\<close>)
  qed
qed

lemma wf_run_resume:
  assumes "wf m" "a < length (heap m)"
  shows "wf (snd (run_resume a m))"
proof (cases "\<exists>fl r. current (heap m ! a) = Some fl \<and> settled fl = Some r")
  case True
  then obtain fl r where fl: "current (heap m ! a) = Some fl" "settled fl = Some r"
    by blast
  show ?thesis
    by (rule wf_update [OF assms(1) run_resume_settled(2) [OF assms(2) fl]])
      (simp_all add: resumed_ok [OF wf_nth [OF assms] fl] resumed_fields run_resume_other)
next
  case False
  then have "run_resume a m = (None, m)"
    by (intro run_resume_idle) (cases "current (heap m ! a)", auto)
  then show ?thesis using assms(1) by simp
qed

lemma wf_timer_fired:
  assumes "wf m"
  shows "wf (timer_fired a m)"
  unfolding timer_fired_def
  by (rule wf_update [OF assms upd_fields(1)])
    (auto simp: upd_fields timer_fired_ok [OF wf_nth [OF assms]] split: option.splits)

lemma wf_work_done:
  assumes "wf m"
  shows "wf (work_done a n res m)"
proof (cases "n \<in> set (working (heap m ! a))")
  case True
  show ?thesis
    unfolding work_done_def if_P [OF True]
    by (rule wf_update [OF assms upd_fields(1)])
      (auto simp: upd_fields work_done_ok [OF wf_nth [OF assms]] split: option.splits)
next
  case False
  then show ?thesis using assms by (simp add: work_done_def)
qed

lemma wf_abort_signal:
  assumes "wf m"
  shows "wf (abort_signal sg m)"
proof -
  have "heap_ok (abort_signal sg m)"
    using assms by (auto simp: abort_signal_def heap_ok_def wf_def on_abort_ok)
  moreover have "registry_ok (abort_signal sg m)"
    using assms unfolding registry_ok_def wf_def
    by (auto simp: abort_signal_def on_abort_cid)
  ultimately show ?thesis by (simp add: wf_def)
qed

lemma wf_sweep_next:
  assumes "wf m"
  shows "wf (sweep_next ids m)"
proof (cases ids)
  case Nil
  then show ?thesis
    using assms wf_cong [of "sweep_next ids m" m] by (simp add: sweep_next_def)
next
  case (Cons k rest)
  then show ?thesis
    using wf_terminate [OF assms, of k]
      wf_cong [of "sweep_next ids m" "snd (terminate k m)"]
    by (simp add: sweep_next_def case_prod_beta)
qed

lemma wf_evict:
  assumes "wf m"
  shows "wf (evictIdleContainers ttl m)"
proof (cases "idleSweepRunning m")
  case True
  then show ?thesis using assms by (simp add: evictIdleContainers_def)
next
  case False
  have "wf (snd (now (m\<lparr>idleSweepRunning := True\<rparr>)))"
    using assms wf_cong [of "snd (now (m\<lparr>idleSweepRunning := True\<rparr>))" m]
    by (simp add: now_def)
  then show ?thesis
    using False by (simp add: evictIdleContainers_def case_prod_beta wf_sweep_next)
qed

lemma wf_sweep_resume:
  assumes "wf m"
  shows "wf (sweep_resume m)"
proof -
  have "wf (emit e m)" for e
    using assms wf_cong [of "emit e m" m] by (simp add: emit_fields)
  then show ?thesis
    using assms
    by (auto simp: sweep_resume_def wf_sweep_next split: option.splits)
qed

lemma wf_step:
  assumes "wf m"
  shows "wf (step e m)"
proof (cases e)
  case CallTerminateAll
  then show ?thesis by (simp add: terminateAll_def wf_terminate_fold [OF assms])
next
  case CallDispose
  have "wf (m\<lparr>idleSweepTimer := None\<rparr>)"
    using assms wf_cong [of "m\<lparr>idleSweepTimer := None\<rparr>" m] by simp
  then show ?thesis
    using CallDispose by (simp add: dispose_def terminateAll_def wf_terminate_fold)
next
  case SweepTimer
  then show ?thesis using assms by (simp add: wf_evict split: option.splits)
qed (use assms in \<open>simp_all add: wf_spawn wf_spawn_resume execute_def runFile_def install_def
    wf_submit wf_snapshot wf_clone wf_terminate wf_dispatch wf_timer_fired wf_abort_signal
    wf_work_done wf_run_resume wf_sweep_resume\<close>)

lemma wf_new_manager: "wf (new_manager options)"
  by (simp add: wf_def heap_ok_def registry_ok_def new_manager_def)

lemma wf_exec: "wf m \<Longrightarrow> wf (exec es m)"
  unfolding exec_def by (induction es arbitrary: m) (simp_all add: wf_step)

lemma wf_reachable: "wf (exec es (new_manager options))"
  by (rule wf_exec [OF wf_new_manager])

section \<open>One chain running alone\<close>

text \<open>The ids of the \<^verbatim>\<open>container-evicted\<close> events, in order.\<close>

definition evictions :: "emitted list \<Rightarrow> string list" where
  "evictions es = concat (map (\<lambda>e. case e of ContainerEvicted k \<Rightarrow> [k] | _ \<Rightarrow> []) es)"

text \<open>\<open>f\<close> promise jobs of the chain of \<open>a\<close>, one after the other.\<close>

fun drain :: "nat \<Rightarrow> nat \<Rightarrow> manager \<Rightarrow> manager" where
  "drain 0 a m = m"
| "drain (Suc f) a m = drain f a (snd (dispatch a m))"

text \<open>The operation in flight on \<open>a\<close>, if there is one, settles: its work finishes with
  \<open>res\<close> unless its promise has settled already, and \<^verbatim>\<open>run\<close> resumes.\<close>

definition settle_in_flight :: "nat \<Rightarrow> string + val \<Rightarrow> manager \<Rightarrow> manager" where
  "settle_in_flight a res m =
     (case current (heap m ! a) of
        None \<Rightarrow> m
      | Some fl \<Rightarrow>
          snd (run_resume a
            (if settled fl = None then work_done a (op_ticket fl) res m else m)))"

lemma evictions_append: "evictions (xs @ ys) = evictions xs @ evictions ys"
  by (simp add: evictions_def)

lemma setStatus_events:
  "evictions (events (setStatus a st m)) = evictions (events m)"
  by (simp add: setStatus_def Let_def case_prod_beta field_simps evictions_def)

lemma finalize_events: "evictions (events (finalize a m)) = evictions (events m)"
  by (simp add: finalize_def Let_def field_simps setStatus_events evictions_append)
    (simp add: evictions_def field_simps split: option.splits runtime.splits)

lemma run_enter_events:
  "evictions (events (snd (run_enter a n operation options m))) = evictions (events m)"
  by (simp add: run_enter_def run_admit_def Let_def case_prod_beta field_simps
      setStatus_events evictions_append)
    (simp add: evictions_def)

lemma dispatch_events:
  "evictions (events (snd (dispatch a m))) = evictions (events m)"
  by (simp add: dispatch_def upd_fields finalize_events run_enter_events
      split: option.splits list.splits task.splits)

lemma dispatch_sweep_fields:
  "sweepWait (snd (dispatch a m)) = sweepWait m"
  "idleSweepRunning (snd (dispatch a m)) = idleSweepRunning m"
  by (simp_all add: dispatch_def upd_fields finalize_fields run_enter_other
      split: option.splits list.splits task.splits)

text \<open>What a stretch of steps that only works on the object at \<open>a\<close> leaves as it was.\<close>

definition same_but :: "nat \<Rightarrow> manager \<Rightarrow> manager \<Rightarrow> bool" where
  "same_but a m m' =
     (length (heap m') = length (heap m) \<and>
      (\<forall>b. b \<noteq> a \<longrightarrow> heap m' ! b = heap m ! b) \<and>
      cid (heap m' ! a) = cid (heap m ! a) \<and>
      sweepWait m' = sweepWait m \<and>
      idleSweepRunning m' = idleSweepRunning m \<and>
      evictions (events m') = evictions (events m))"

lemma same_but_refl: "same_but a m m"
  by (simp add: same_but_def)

lemma same_but_trans: "same_but a m m' \<Longrightarrow> same_but a m' m'' \<Longrightarrow> same_but a m m''"
  by (simp add: same_but_def)

text \<open>One promise job on a chain with no operation in flight whose object is
  finalizing: a waiting operation is refused, a \<^verbatim>\<open>finalize\<close> runs.\<close>

lemma dispatch_finalizing:
  assumes len: "a < length (heap m)"
    and cur: "current (heap m ! a) = None"
    and que: "queue (heap m ! a) = t # rest"
    and sta: "isFinalizingStatus (status (heap m ! a))"
  defines "m' \<equiv> snd (dispatch a m)"
  shows "same_but a m m'"
    and "current (heap m' ! a) = None"
    and "queue (heap m' ! a) = rest"
    and "completed (heap m' ! a) = Suc (completed (heap m ! a))"
    and "isFinalizingStatus (status (heap m' ! a))"
    and "containers m' = (if t = FinalizeTask
           then AList.delete (cid (heap m ! a)) (containers m) else containers m)"
proof -
  have "\<exists>c'. heap m' = (heap m)[a := c'] \<and> cid c' = cid (heap m ! a) \<and> current c' = None \<and>
      queue c' = rest \<and> completed c' = Suc (completed (heap m ! a)) \<and>
      isFinalizingStatus (status c') \<and>
      containers m' = (if t = FinalizeTask
           then AList.delete (cid (heap m ! a)) (containers m) else containers m)"
  proof (cases t)
    case (OpTask n operation options)
    have reg: "containers m' = containers m"
      using cur que OpTask by (simp add: m'_def dispatch_def run_enter_other upd_fields)
    show ?thesis
      using dispatch_refused(1) [OF len cur que [unfolded OpTask] sta] sta cur reg OpTask
      by (auto simp: m'_def refused_def)
  next
    case FinalizeTask
    show ?thesis
      using dispatch_finalize [OF len cur que [unfolded FinalizeTask]] cur FinalizeTask
      by (auto simp: m'_def finalized_fields isFinalizingStatus_def)
  qed
  then obtain c' where c': "heap m' = (heap m)[a := c']" "cid c' = cid (heap m ! a)"
    "current c' = None" "queue c' = rest" "completed c' = Suc (completed (heap m ! a))"
    "isFinalizingStatus (status c')"
    "containers m' = (if t = FinalizeTask
           then AList.delete (cid (heap m ! a)) (containers m) else containers m)"
    by blast
  show "same_but a m m'"
    using len c'(1,2)
    by (simp add: same_but_def m'_def dispatch_events dispatch_sweep_fields)
  show "current (heap m' ! a) = None" "queue (heap m' ! a) = rest"
    "completed (heap m' ! a) = Suc (completed (heap m ! a))"
    "isFinalizingStatus (status (heap m' ! a))"
    using len c' by simp_all
  show "containers m' = (if t = FinalizeTask
           then AList.delete (cid (heap m ! a)) (containers m) else containers m)"
    by (rule c'(7))
qed

lemma drain_finalizing:
  assumes "wf m" "a < length (heap m)" "current (heap m ! a) = None"
    "isFinalizingStatus (status (heap m ! a))" "length (queue (heap m ! a)) = f"
  shows "wf (drain f a m) \<and> same_but a m (drain f a m) \<and>
         current (heap (drain f a m) ! a) = None \<and>
         queue (heap (drain f a m) ! a) = [] \<and>
         completed (heap (drain f a m) ! a) = completed (heap m ! a) + f \<and>
         isFinalizingStatus (status (heap (drain f a m) ! a)) \<and>
         containers (drain f a m) =
           (if FinalizeTask \<in> set (queue (heap m ! a))
            then AList.delete (cid (heap m ! a)) (containers m) else containers m)"
  using assms
proof (induction f arbitrary: m)
  case 0
  then show ?case by (simp add: same_but_refl)
next
  case (Suc f)
  then obtain t rest where que: "queue (heap m ! a) = t # rest"
    by (cases "queue (heap m ! a)") auto
  define m' where "m' = snd (dispatch a m)"
  note d = dispatch_finalizing [OF Suc.prems(2,3) que Suc.prems(4), folded m'_def]
  have wf': "wf m'"
    unfolding m'_def by (rule wf_dispatch [OF Suc.prems(1,2)])
  have len': "a < length (heap m')"
    using d(1) Suc.prems(2) by (simp add: same_but_def)
  have lq: "length (queue (heap m' ! a)) = f"
    using Suc.prems(5) que by (simp add: d(3))
  note ih = Suc.IH [OF wf' len' d(2) d(5) lq]
  have cid': "cid (heap m' ! a) = cid (heap m ! a)"
    using d(1) by (simp add: same_but_def)
  have reg: "containers (drain f a m') =
           (if FinalizeTask \<in> set (queue (heap m ! a))
            then AList.delete (cid (heap m ! a)) (containers m) else containers m)"
    using ih by (auto simp: d(3,6) que cid' delete_idem)
  show ?case
    using ih same_but_trans [OF d(1)] reg
    by (simp add: m'_def [symmetric] d(4))
qed

text \<open>The chain of \<open>a\<close> runs until nothing waits: the operation in flight settles, then
  every waiting task gets its promise job.\<close>

definition run_chain :: "nat \<Rightarrow> string + val \<Rightarrow> manager \<Rightarrow> manager" where
  "run_chain a res m =
     (let m1 = settle_in_flight a res m
      in drain (length (queue (heap m1 ! a))) a m1)"

definition chain_of :: "terminate_reply \<Rightarrow> nat option" where
  "chain_of r = (case r of TDone _ \<Rightarrow> None | TTask a _ \<Rightarrow> Some a | TQueue a _ _ \<Rightarrow> Some a)"

text \<open>A call of \<^verbatim>\<open>terminate\<close> and what its caller gets, when nothing else happens in
  between than the chain of that container running.\<close>

definition terminate_alone :: "string \<Rightarrow> string + val \<Rightarrow> manager \<Rightarrow> bool option \<times> manager" where
  "terminate_alone k res m =
     (let (r, m1) = terminate k m;
          m2 = (case chain_of r of None \<Rightarrow> m1 | Some a \<Rightarrow> run_chain a res m1)
      in (terminate_result r m2, m2))"

lemma work_done_settles:
  assumes "a < length (heap m)" "current (heap m ! a) = Some fl" "settled fl = None"
    "op_ticket fl \<in> set (working (heap m ! a))"
  shows "\<exists>c' fl'. heap (work_done a (op_ticket fl) res m) = (heap m)[a := c'] \<and>
           current c' = Some fl' \<and> settled fl' \<noteq> None \<and> queue c' = queue (heap m ! a) \<and>
           completed c' = completed (heap m ! a) \<and> status c' = status (heap m ! a) \<and>
           cid c' = cid (heap m ! a)"
proof -
  define r :: "error + val" where
    "r = (case res of Inl msg \<Rightarrow> Inl (WorkError msg) | Inr v \<Rightarrow> Inr v)"
  define c' where "c' = (heap m ! a)\<lparr>current := Some (settle r fl),
      working := removeAll (op_ticket fl) (working (heap m ! a))\<rparr>"
  have "heap (work_done a (op_ticket fl) res m) = (heap m)[a := c']"
    using assms by (simp add: work_done_def upd_fields c'_def r_def)
  moreover have "current c' = Some (settle r fl)" "settled (settle r fl) \<noteq> None"
    "queue c' = queue (heap m ! a)" "completed c' = completed (heap m ! a)"
    "status c' = status (heap m ! a)" "cid c' = cid (heap m ! a)"
    using assms(3) by (simp_all add: c'_def settle_fields)
  ultimately show ?thesis by blast
qed

lemma work_done_other:
  "containers (work_done a n res m) = containers m"
  "sweepWait (work_done a n res m) = sweepWait m"
  "idleSweepRunning (work_done a n res m) = idleSweepRunning m"
  "events (work_done a n res m) = events m"
  by (simp_all add: work_done_def upd_fields)

lemma run_finally_events:
  "evictions (events (run_finally a fl r m)) = evictions (events m)"
  by (simp add: run_finally_def Let_def case_prod_beta field_simps setStatus_events
      evictions_append)
    (simp add: evictions_def)

lemma run_resume_events:
  "evictions (events (snd (run_resume a m))) = evictions (events m)"
  by (simp add: run_resume_def Let_def upd_fields run_finally_events run_catch_def bump_fields
      split: option.splits sum.splits)

lemma settle_in_flight_finalizing:
  fixes a res m
  assumes wf: "wf m" and len: "a < length (heap m)"
    and sta: "isFinalizingStatus (status (heap m ! a))"
  defines "m' \<equiv> settle_in_flight a res m"
  shows "wf m' \<and> same_but a m m' \<and> current (heap m' ! a) = None \<and>
         queue (heap m' ! a) = queue (heap m ! a) \<and>
         completed (heap m' ! a) + length (queue (heap m' ! a)) = chained (heap m ! a) \<and>
         status (heap m' ! a) = status (heap m ! a) \<and> containers m' = containers m"
proof (cases "current (heap m ! a)")
  case None
  then show ?thesis
    using wf by (simp add: m'_def settle_in_flight_def same_but_refl chained_def)
next
  case (Some fl)
  define m0 where "m0 = (if settled fl = None then work_done a (op_ticket fl) res m else m)"
  have m': "m' = snd (run_resume a m0)"
    by (simp add: m'_def settle_in_flight_def Some m0_def)
  have wf0: "wf m0"
    using wf by (simp add: m0_def wf_work_done)
  have "\<exists>c0 fl0. heap m0 = (heap m)[a := c0] \<and>
           current c0 = Some fl0 \<and> settled fl0 \<noteq> None \<and> queue c0 = queue (heap m ! a) \<and>
           completed c0 = completed (heap m ! a) \<and> status c0 = status (heap m ! a) \<and>
           cid c0 = cid (heap m ! a)"
  proof (cases "settled fl")
    case None
    have "op_ticket fl \<in> set (working (heap m ! a))"
      using wf_nth [OF wf len] Some None by (simp add: object_ok_def final_ok_def)
    then show ?thesis
      using work_done_settles [OF len Some None, of res] None by (simp add: m0_def)
  next
    case (Some r)
    have "heap m0 = (heap m)[a := heap m ! a]"
      using Some by (simp add: m0_def)
    moreover have "settled fl \<noteq> None" using Some by simp
    ultimately show ?thesis
      using \<open>current (heap m ! a) = Some fl\<close> by blast
  qed
  then obtain c0 fl0 r where c0: "heap m0 = (heap m)[a := c0]" "current c0 = Some fl0"
    "settled fl0 = Some r" "queue c0 = queue (heap m ! a)"
    "completed c0 = completed (heap m ! a)" "status c0 = status (heap m ! a)"
    "cid c0 = cid (heap m ! a)"
    by auto
  have len0: "a < length (heap m0)" and cur0: "current (heap m0 ! a) = Some fl0"
    using len c0 by simp_all
  note rr = run_resume_settled [OF len0 cur0 c0(3)]
  have o0: "containers m0 = containers m" "sweepWait m0 = sweepWait m"
    "idleSweepRunning m0 = idleSweepRunning m" "events m0 = events m"
    by (simp_all add: m0_def work_done_other)
  define c' where "c' = resumed fl0 r (clock m0 (ticks m0)) (clock m0 (Suc (ticks m0))) c0"
  have h': "heap (snd (run_resume a m0)) = (heap m)[a := c']"
    using len by (simp add: rr(2) c0(1) c'_def)
  have c'f: "cid c' = cid (heap m ! a)" "current c' = None" "queue c' = queue (heap m ! a)"
    "completed c' = Suc (completed (heap m ! a))" "status c' = status (heap m ! a)"
    using sta by (simp_all add: c'_def resumed_fields c0)
  have sb: "same_but a m (snd (run_resume a m0))"
    using len
    by (simp add: same_but_def h' c'f run_resume_other run_resume_events o0)
  have "chained (heap m ! a) = Suc (completed (heap m ! a)) + length (queue (heap m ! a))"
    by (simp add: chained_def Some)
  then show ?thesis
    unfolding m'
    using len sb wf_run_resume [OF wf0 len0]
    by (simp add: h' c'f run_resume_other o0)
qed

lemma run_chain_finalizing:
  fixes a res m
  assumes wf: "wf m" and len: "a < length (heap m)"
    and sta: "isFinalizingStatus (status (heap m ! a))"
  defines "m' \<equiv> run_chain a res m"
  shows "wf m' \<and> same_but a m m' \<and>
         completed (heap m' ! a) = chained (heap m ! a) \<and>
         containers m' =
           (if FinalizeTask \<in> set (queue (heap m ! a))
            then AList.delete (cid (heap m ! a)) (containers m) else containers m)"
proof -
  define m1 where "m1 = settle_in_flight a res m"
  note s = settle_in_flight_finalizing [OF wf len sta, of res, folded m1_def]
  have len1: "a < length (heap m1)"
    using s len by (simp add: same_but_def)
  have sta1: "isFinalizingStatus (status (heap m1 ! a))"
    using s sta by simp
  have cur1: "current (heap m1 ! a) = None" and wf1: "wf m1"
    using s by simp_all
  note d = drain_finalizing [OF wf1 len1 cur1 sta1 refl]
  have m': "m' = drain (length (queue (heap m1 ! a))) a m1"
    by (simp add: m'_def run_chain_def m1_def Let_def)
  have cid1: "cid (heap m1 ! a) = cid (heap m ! a)"
    using s by (simp add: same_but_def)
  have d': "wf m'" "same_but a m1 m'"
    "completed (heap m' ! a) = completed (heap m1 ! a) + length (queue (heap m1 ! a))"
    "containers m' =
       (if FinalizeTask \<in> set (queue (heap m1 ! a))
        then AList.delete (cid (heap m1 ! a)) (containers m1) else containers m1)"
    unfolding m' using d by blast+
  have s': "same_but a m m1" "queue (heap m1 ! a) = queue (heap m ! a)"
    "completed (heap m1 ! a) + length (queue (heap m1 ! a)) = chained (heap m ! a)"
    "containers m1 = containers m"
    using s by blast+
  show ?thesis
    using d'(1) same_but_trans [OF s'(1) d'(2)]
    by (simp add: d'(3,4) s'(3,4) s'(2) [symmetric] cid1)
qed

lemma list_infos_ids:
  assumes "registry_ok m"
  shows "info_id ` set (list_infos m) = fst ` set (containers m)"
proof -
  have "cid (heap m ! snd p) = fst p" if "p \<in> set (containers m)" for p
    using assms that unfolding registry_ok_def by blast
  then have "(\<lambda>p. info_id (toInfo (heap m ! snd p))) ` set (containers m) =
      fst ` set (containers m)"
    by (intro image_cong) (simp_all add: toInfo_def)
  then show ?thesis
    by (simp add: list_infos_def image_image)
qed

lemma absent_after_delete:
  assumes "wf m'" "containers m' = AList.delete k xs"
  shows "containers_get m' k = None" "k \<notin> info_id ` set (list_infos m')"
proof -
  show "containers_get m' k = None"
    by (simp add: containers_get_def assms(2) delete_conv')
  have "registry_ok m'" using assms(1) by (simp add: wf_def)
  then show "k \<notin> info_id ` set (list_infos m')"
    by (simp add: list_infos_ids assms(2) delete_notin_dom)
qed

lemma terminate_alone_pending:
  fixes k res m a
  assumes wf: "wf m" and len: "a < length (heap m)"
    and sta: "status (heap m ! a) = Terminating" and cidk: "cid (heap m ! a) = k"
    and r: "r = TTask a (chained (heap m ! a)) \<or> r = TQueue a (chained (heap m ! a)) k"
  defines "m' \<equiv> run_chain a res m"
  shows "terminate_result r m' = Some True \<and> wf m' \<and>
         containers m' = AList.delete k (containers m)"
proof -
  have fin: "isFinalizingStatus (status (heap m ! a))"
    using sta by (simp add: isFinalizingStatus_def)
  have "FinalizeTask \<in> set (queue (heap m ! a))"
    using wf_nth [OF wf len] sta by (simp add: object_ok_def final_ok_def)
  then have rc: "wf m'" "completed (heap m' ! a) = chained (heap m ! a)"
    "containers m' = AList.delete k (containers m)"
    using run_chain_finalizing [OF wf len fin, of res] by (simp_all add: m'_def cidk)
  have "containers_get m' k = None"
    using absent_after_delete(1) [OF rc(1,3)] .
  then have "terminate_result r m' = Some True"
    using r by (auto simp: terminate_result_def rc(2))
  then show ?thesis using rc by simp
qed







lemma timer_fired_unarmed:
  assumes "current (heap m ! a) = Some fl" "timer fl = None"
  shows "timer_fired a m = m"
  using assms by (simp add: timer_fired_def upd_def)

section \<open>A call of terminate in any interleaving\<close>

text \<open>The tasks of the chain that have not settled: the operation in flight, then the
  queue.\<close>

definition chain_tail :: "managed_container \<Rightarrow> task list" where
  "chain_tail c =
     (case current c of None \<Rightarrow> []
      | Some fl \<Rightarrow> [OpTask (op_ticket fl) (op_kind fl) (op_opts fl)]) @ queue c"

text \<open>A \<^verbatim>\<open>finalize\<close> task that has not run yet is among the first \<open>n\<close> tasks of the chain.\<close>

definition finalize_before :: "nat \<Rightarrow> managed_container \<Rightarrow> bool" where
  "finalize_before n c = (FinalizeTask \<in> set (take (n - completed c) (chain_tail c)))"

text \<open>How many \<^verbatim>\<open>container-created\<close> events were emitted for the id \<open>k\<close>.\<close>

definition creations :: "string \<Rightarrow> emitted list \<Rightarrow> nat" where
  "creations k evs = length (filter (\<lambda>e. e = ContainerCreated k) evs)"

text \<open>
  The invariant of a pending \<^verbatim>\<open>terminate(k)\<close> that waits for the first \<open>n\<close> tasks of the chain
  of the object at \<open>a\<close>, since the moment the log had \<open>j\<close> creations of \<open>k\<close>: a
  \<^verbatim>\<open>finalize\<close> of the object is still to run among these tasks, or the id is absent
  from the registry, or a container has been created under the id since.
\<close>

definition awaited :: "nat \<Rightarrow> nat \<Rightarrow> string \<Rightarrow> nat \<Rightarrow> manager \<Rightarrow> bool" where
  "awaited a n k j m =
     (a < length (heap m) \<and> cid (heap m ! a) = k \<and> j \<le> creations k (events m) \<and>
      (finalize_before n (heap m ! a) \<or> containers_get m k = None \<or>
       j < creations k (events m)))"

lemma chained_tail: "chained c = completed c + length (chain_tail c)"
  by (simp add: chained_def chain_tail_def split: option.splits)

lemma finalize_before_append:
  assumes "finalize_before n c" "completed c' = completed c" "chain_tail c' = chain_tail c @ ts"
  shows "finalize_before n c'"
  using assms by (auto simp: finalize_before_def)

lemma finalize_before_same:
  assumes "finalize_before n c" "completed c' = completed c" "chain_tail c' = chain_tail c"
  shows "finalize_before n c'"
  using assms by (simp add: finalize_before_def)

lemma finalize_before_pop:
  assumes "finalize_before n c" "chain_tail c = t # ts" "t \<noteq> FinalizeTask"
    "completed c' = Suc (completed c)" "chain_tail c' = ts"
  shows "finalize_before n c'"
proof -
  have "n - completed c \<noteq> 0"
    using assms(1) by (auto simp: finalize_before_def)
  then obtain d where d: "n - completed c = Suc d"
    by (cases "n - completed c") auto
  then have "n - completed c' = d"
    using assms(4) by simp
  then show ?thesis
    using assms d by (simp add: finalize_before_def)
qed

lemma finalize_before_done: "n \<le> completed c \<Longrightarrow> \<not> finalize_before n c"
  by (simp add: finalize_before_def)

lemma creations_append: "creations k (xs @ ys) = creations k xs + creations k ys"
  by (simp add: creations_def)

lemma setStatus_creations:
  "creations k (events (setStatus a st m)) = creations k (events m)"
  by (simp add: setStatus_def Let_def case_prod_beta field_simps creations_def)

lemma finalize_creations: "creations k (events (finalize a m)) = creations k (events m)"
  by (simp add: finalize_def Let_def field_simps setStatus_creations creations_append)
    (simp add: creations_def field_simps split: option.splits runtime.splits)

lemma run_enter_creations:
  "creations k (events (snd (run_enter a n operation options m))) = creations k (events m)"
  by (simp add: run_enter_def run_admit_def Let_def case_prod_beta field_simps
      setStatus_creations creations_append)
    (simp add: creations_def)

lemma dispatch_creations:
  "creations k (events (snd (dispatch a m))) = creations k (events m)"
  by (simp add: dispatch_def upd_fields finalize_creations run_enter_creations
      split: option.splits list.splits task.splits)

lemma run_finally_creations:
  "creations k (events (run_finally a fl r m)) = creations k (events m)"
  by (simp add: run_finally_def Let_def case_prod_beta field_simps setStatus_creations
      creations_append)
    (simp add: creations_def)

lemma run_resume_creations:
  "creations k (events (snd (run_resume a m))) = creations k (events m)"
  by (simp add: run_resume_def Let_def upd_fields run_finally_creations run_catch_def bump_fields
      split: option.splits sum.splits)

lemma spawn_catch_creations:
  "creations k (events (snd (spawn_catch a msg m))) = creations k (events m)"
  by (simp add: spawn_catch_def Let_def field_simps setStatus_creations creations_append
      split: option.splits runtime.splits)
    (simp add: creations_def)

lemma spawn_resume_creations:
  "creations k (events (snd (spawn_resume a outcome m))) = creations k (events m)"
  by (simp add: spawn_resume_def Let_def case_prod_beta field_simps setStatus_creations
      spawn_catch_creations creations_append split: option.splits construct_outcome.splits)
    (simp add: creations_def)

lemma terminate_creations:
  "creations k (events (snd (terminate k' m))) = creations k (events m)"
  by (simp add: terminate_def Let_def field_simps setStatus_creations
      split: option.splits)

lemma submit_events: "events (snd (submit operation k options m)) = events m"
  by (simp add: submit_def enqueue_def Let_def upd_fields split: sum.splits)

lemma spawn_creations:
  "creations k (events m) \<le> creations k (events (snd (spawn so m)))"
  "containers_get m k = None \<Longrightarrow> containers_get (snd (spawn so m)) k \<noteq> None \<Longrightarrow>
     creations k (events m) < creations k (events (snd (spawn so m)))"
  by (auto simp: spawn_def Let_def case_prod_beta field_simps creations_def containers_get_def
      update_conv' split: option.splits if_splits)


lemma awaited_next:
  assumes aw: "awaited a n k j m"
    and len: "length (heap m) \<le> length (heap m')"
    and cid: "cid (heap m' ! a) = cid (heap m ! a)"
    and fin: "finalize_before n (heap m ! a) \<Longrightarrow>
              finalize_before n (heap m' ! a) \<or> containers_get m' k = None"
    and ev: "creations k (events m) \<le> creations k (events m')"
    and reg: "containers_get m k = None \<Longrightarrow>
              containers_get m' k = None \<or> creations k (events m) < creations k (events m')"
  shows "awaited a n k j m'"
proof -
  have a: "a < length (heap m')" "cid (heap m' ! a) = k" "j \<le> creations k (events m')"
    using aw len cid ev by (simp_all add: awaited_def)
  consider "finalize_before n (heap m ! a)" | "containers_get m k = None"
    | "j < creations k (events m)"
    using aw by (auto simp: awaited_def)
  then have "finalize_before n (heap m' ! a) \<or> containers_get m' k = None \<or>
      j < creations k (events m')"
  proof cases
    case 1
    then show ?thesis using fin by blast
  next
    case 2
    then show ?thesis using reg aw by (auto simp: awaited_def)
  next
    case 3
    then show ?thesis using ev by simp
  qed
  then show ?thesis using a by (simp add: awaited_def)
qed

lemma awaited_cong:
  "heap m' = heap m \<Longrightarrow> containers m' = containers m \<Longrightarrow> events m' = events m \<Longrightarrow>
   awaited a n k j m' = awaited a n k j m"
  by (simp add: awaited_def containers_get_def)

lemma awaited_update:
  assumes aw: "awaited a n k j m"
    and h: "heap m' = (heap m)[b := c']"
    and obj: "b = a \<Longrightarrow> cid c' = cid (heap m ! a) \<and>
              (finalize_before n (heap m ! a) \<longrightarrow>
                 finalize_before n c' \<or> containers_get m' k = None)"
    and reg: "containers m' = containers m \<or> (\<exists>k'. containers m' = AList.delete k' (containers m))"
    and ev: "creations k (events m') = creations k (events m)"
  shows "awaited a n k j m'"
proof (rule awaited_next [OF aw])
  have len: "a < length (heap m)"
    using aw by (simp add: awaited_def)
  show "length (heap m) \<le> length (heap m')"
    by (simp add: h)
  show "cid (heap m' ! a) = cid (heap m ! a)"
    using obj len by (cases "b = a") (simp_all add: h)
  show "finalize_before n (heap m' ! a) \<or> containers_get m' k = None"
    if "finalize_before n (heap m ! a)"
    using obj len that by (cases "b = a") (simp_all add: h)
  show "creations k (events m) \<le> creations k (events m')"
    by (simp add: ev)
  show "containers_get m' k = None \<or> creations k (events m) < creations k (events m')"
    if "containers_get m k = None"
    using reg that by (auto simp: containers_get_def delete_conv')
qed

lemma chain_tail_enqueued:
  "chain_tail (enqueued n operation options c) = chain_tail c @ [OpTask n operation options]"
  by (simp add: chain_tail_def enqueued_def)

lemma chain_tail_terminating: "chain_tail (terminating t c) = chain_tail c @ [FinalizeTask]"
  by (simp add: chain_tail_def terminating_def set_status_fields)

lemma completed_terminating: "completed (terminating t c) = completed c"
  by (simp add: terminating_def set_status_fields)

lemma chain_tail_entered:
  assumes "current c = None" "queue c = OpTask n operation options # rest"
    "op_ticket fl = n" "op_kind fl = operation" "op_opts fl = options"
  shows "chain_tail (entered fl n (admit t t' (c\<lparr>queue := rest\<rparr>))) = chain_tail c"
  using assms by (simp add: chain_tail_def entered_def admit_fields)

lemma chain_tail_refused:
  "current c = None \<Longrightarrow> chain_tail (refused n options (c\<lparr>queue := rest\<rparr>)) = rest"
  by (simp add: chain_tail_def refused_def)

lemma chain_tail_resumed:
  "chain_tail (resumed fl r t t' c) = queue c"
  by (simp add: chain_tail_def resumed_fields)

lemma chain_tail_same_chain: "same_chain c c' \<Longrightarrow> chain_tail c' = chain_tail c"
  by (simp add: chain_tail_def same_chain_def)

lemma chain_tail_settle:
  "current c = Some fl \<Longrightarrow> chain_tail (c\<lparr>current := Some (settle r fl)\<rparr>) = chain_tail c"
  by (simp add: chain_tail_def settle_fields)

lemma awaited_terminate:
  assumes aw: "awaited a n k j m"
  shows "awaited a n k j (snd (terminate k' m))"
proof (cases rule: terminate_cases [of m k'])
  case unknown
  then show ?thesis using aw by simp
next
  case (joined a')
  then show ?thesis using aw by simp
next
  case (stale a')
  have "heap (containers_delete k' m) = (heap m)[a := heap m ! a]"
    by (simp add: containers_delete_fields)
  then have "awaited a n k j (containers_delete k' m)"
    by (rule awaited_update [OF aw]) (auto simp: containers_delete_fields)
  then show ?thesis by (simp add: stale(3))
next
  case (started a')
  show ?thesis
  proof (rule awaited_update [OF aw started(4)])
    show "cid (terminating (clock m (ticks m)) (heap m ! a')) = cid (heap m ! a) \<and>
        (finalize_before n (heap m ! a) \<longrightarrow>
           finalize_before n (terminating (clock m (ticks m)) (heap m ! a')) \<or>
           containers_get (snd (terminate k' m)) k = None)" if "a' = a"
      using that finalize_before_append [OF _ completed_terminating chain_tail_terminating]
      by (auto simp: terminating_cid)
    show "containers (snd (terminate k' m)) = containers m \<or>
        (\<exists>k'a. containers (snd (terminate k' m)) = AList.delete k'a (containers m))"
      by (simp add: started(5))
    show "creations k (events (snd (terminate k' m))) = creations k (events m)"
      by (rule terminate_creations)
  qed
qed

lemma awaited_terminate_fold:
  "awaited a n k j m \<Longrightarrow> awaited a n k j (fold (\<lambda>k m. snd (terminate k m)) ks m)"
  by (induction ks arbitrary: m) (simp_all add: awaited_terminate)

lemma awaited_submit:
  assumes aw: "awaited a n k j m"
  shows "awaited a n k j (snd (submit operation k' options m))"
proof (cases rule: submit_cases [of operation k' options m])
  case (rejected e)
  then show ?thesis using aw by simp
next
  case (queued a')
  have c: "completed (enqueued x operation options c) = completed c" for x c
    by (simp add: enqueued_def)
  show ?thesis
  proof (rule awaited_update [OF aw queued(4)])
    show "cid (enqueued (chained (heap m ! a')) operation options (heap m ! a')) =
          cid (heap m ! a) \<and>
        (finalize_before n (heap m ! a) \<longrightarrow>
           finalize_before n (enqueued (chained (heap m ! a')) operation options (heap m ! a')) \<or>
           containers_get (snd (submit operation k' options m)) k = None)" if "a' = a"
      using that finalize_before_append [OF _ c chain_tail_enqueued]
      by (auto simp: enqueued_cid)
    show "containers (snd (submit operation k' options m)) = containers m \<or>
        (\<exists>k'a. containers (snd (submit operation k' options m)) = AList.delete k'a (containers m))"
      by (simp add: queued(5))
    show "creations k (events (snd (submit operation k' options m))) = creations k (events m)"
      by (simp add: submit_events)
  qed
qed

lemma awaited_snapshot:
  assumes aw: "awaited a n k j m"
  shows "awaited a n k j (snd (snapshot k' m))"
proof (cases "requireContainer m k'")
  case (Inl e)
  then show ?thesis using aw by (simp add: snapshot_def)
next
  case (Inr a')
  note st = snapshot_state [OF Inr]
  show ?thesis
    unfolding st
    by (rule awaited_update [OF aw, where b = a' and
          c' = "(heap m ! a')\<lparr>lastUsedAt := clock m (ticks m),
                updatedAt := clock m (Suc (ticks m))\<rparr>"])
      (auto simp: finalize_before_def chain_tail_def)
qed

lemma awaited_spawn:
  assumes aw: "awaited a n k j m"
  shows "awaited a n k j (snd (spawn so m))"
proof (rule awaited_next [OF aw])
  have len: "a < length (heap m)"
    using aw by (simp add: awaited_def)
  have h: "heap (snd (spawn so m)) = heap m \<or> (\<exists>c. heap (snd (spawn so m)) = heap m @ [c])"
    by (cases rule: spawn_cases [of so m]) auto
  then have same: "heap (snd (spawn so m)) ! a = heap m ! a"
    using len by (auto simp: nth_append)
  show "length (heap m) \<le> length (heap (snd (spawn so m)))"
    using h by auto
  show "cid (heap (snd (spawn so m)) ! a) = cid (heap m ! a)"
    by (simp add: same)
  show "finalize_before n (heap (snd (spawn so m)) ! a) \<or>
      containers_get (snd (spawn so m)) k = None" if "finalize_before n (heap m ! a)"
    using that by (simp add: same)
  show "creations k (events m) \<le> creations k (events (snd (spawn so m)))"
    by (rule spawn_creations)
  show "containers_get (snd (spawn so m)) k = None \<or>
      creations k (events m) < creations k (events (snd (spawn so m)))"
    if "containers_get m k = None"
    using spawn_creations(2) [OF that] by blast
qed

lemma awaited_clone:
  assumes aw: "awaited a n k j m"
  shows "awaited a n k j (snd (clone k0 so m))"
proof (cases "requireContainer m k0")
  case (Inl e)
  then show ?thesis using aw by (simp add: clone_def)
next
  case (Inr a')
  then obtain so' where "clone k0 so m = spawn so' m"
    by (simp add: clone_def Let_def)
  then show ?thesis using awaited_spawn [OF aw] by simp
qed


lemma awaited_spawn_resume:
  assumes aw: "awaited a n k j m" and len: "b < length (heap m)"
  shows "awaited a n k j (snd (spawn_resume b outcome m))"
proof -
  have reg: "containers (snd (spawn_resume b outcome m)) = containers m \<or>
      (\<exists>k'. containers (snd (spawn_resume b outcome m)) = AList.delete k' (containers m))"
    using spawn_resume_registry [OF len, of outcome] by blast
  have "\<exists>c'. heap (snd (spawn_resume b outcome m)) = (heap m)[b := c'] \<and>
      same_chain (heap m ! b) c'"
    using spawn_resume_heap [OF len, of outcome]
  proof
    assume "heap (snd (spawn_resume b outcome m)) = heap m"
    then have "heap (snd (spawn_resume b outcome m)) = (heap m)[b := heap m ! b]"
      by simp
    moreover have "same_chain (heap m ! b) (heap m ! b)"
      by (simp add: same_chain_def)
    ultimately show ?thesis by blast
  qed blast
  then obtain c' where c': "heap (snd (spawn_resume b outcome m)) = (heap m)[b := c']"
    "same_chain (heap m ! b) c'"
    by blast
  show ?thesis
  proof (rule awaited_update [OF aw c'(1) _ reg spawn_resume_creations])
    assume "b = a"
    then have sc: "same_chain (heap m ! a) c'" using c'(2) by simp
    then have "completed c' = completed (heap m ! a)" "cid c' = cid (heap m ! a)"
      by (simp_all add: same_chain_def)
    then show "cid c' = cid (heap m ! a) \<and>
        (finalize_before n (heap m ! a) \<longrightarrow>
           finalize_before n c' \<or> containers_get (snd (spawn_resume b outcome m)) k = None)"
      using finalize_before_same [OF _ _ chain_tail_same_chain [OF sc]] by auto
  qed
qed

lemma awaited_dispatch:
  assumes aw: "awaited a n k j m" and len: "b < length (heap m)"
  shows "awaited a n k j (snd (dispatch b m))"
proof -
  consider (idle) "current (heap m ! b) \<noteq> None \<or> queue (heap m ! b) = []"
    | (fin) rest where "current (heap m ! b) = None" "queue (heap m ! b) = FinalizeTask # rest"
    | (adm) x operation options rest where "current (heap m ! b) = None"
        "queue (heap m ! b) = OpTask x operation options # rest"
        "\<not> isFinalizingStatus (status (heap m ! b))"
    | (ref) x operation options rest where "current (heap m ! b) = None"
        "queue (heap m ! b) = OpTask x operation options # rest"
        "isFinalizingStatus (status (heap m ! b))"
    by (cases "queue (heap m ! b)"; cases "hd (queue (heap m ! b))") auto
  then show ?thesis
  proof cases
    case idle
    then show ?thesis using aw by (simp add: dispatch_idle)
  next
    case (fin rest)
    note d = dispatch_finalize [OF len fin]
    show ?thesis
    proof (rule awaited_update [OF aw d(1) _ _ dispatch_creations])
      assume "b = a"
      then have "cid (heap m ! b) = k"
        using aw by (simp add: awaited_def)
      then have "containers_get (snd (dispatch b m)) k = None"
        by (simp add: containers_get_def d(2) delete_conv')
      then show "cid ((finalized (clock m (ticks m)) ((heap m ! b)\<lparr>queue := rest\<rparr>))
                   \<lparr>completed := Suc (completed (heap m ! b))\<rparr>) = cid (heap m ! a) \<and>
          (finalize_before n (heap m ! a) \<longrightarrow>
             finalize_before n ((finalized (clock m (ticks m)) ((heap m ! b)\<lparr>queue := rest\<rparr>))
                   \<lparr>completed := Suc (completed (heap m ! b))\<rparr>) \<or>
             containers_get (snd (dispatch b m)) k = None)"
        using \<open>b = a\<close> by (simp add: finalized_fields)
    next
      show "containers (snd (dispatch b m)) = containers m \<or>
          (\<exists>k'. containers (snd (dispatch b m)) = AList.delete k' (containers m))"
        using d(2) by blast
    qed
  next
    case (adm x operation options rest)
    note d = dispatch_admitted [OF len adm]
    have reg: "containers (snd (dispatch b m)) = containers m"
      using adm by (simp add: dispatch_def run_enter_other upd_fields)
    define fl where "fl = runWithControls m (heap m ! b) x operation options (clock m (ticks m))"
    define c' where "c' = entered fl x
       (admit (clock m (ticks m)) (clock m (Suc (ticks m))) ((heap m ! b)\<lparr>queue := rest\<rparr>))"
    have ct: "chain_tail c' = chain_tail (heap m ! b)"
      unfolding c'_def
      by (rule chain_tail_entered [OF adm(1,2)]) (simp_all add: fl_def runWithControls_fields)
    have co: "completed c' = completed (heap m ! b)" "cid c' = cid (heap m ! b)"
      by (simp_all add: c'_def entered_def admit_fields)
    show ?thesis
    proof (rule awaited_update [OF aw d(1) _ _ dispatch_creations])
      assume "b = a"
      then show "cid (entered (runWithControls m (heap m ! b) x operation options
                     (clock m (ticks m))) x
                   (admit (clock m (ticks m)) (clock m (Suc (ticks m)))
                     ((heap m ! b)\<lparr>queue := rest\<rparr>))) = cid (heap m ! a) \<and>
          (finalize_before n (heap m ! a) \<longrightarrow>
             finalize_before n (entered (runWithControls m (heap m ! b) x operation options
                     (clock m (ticks m))) x
                   (admit (clock m (ticks m)) (clock m (Suc (ticks m)))
                     ((heap m ! b)\<lparr>queue := rest\<rparr>))) \<or>
             containers_get (snd (dispatch b m)) k = None)"
        using finalize_before_same [OF _ co(1) ct] co(2)
        unfolding c'_def fl_def by auto
    next
      show "containers (snd (dispatch b m)) = containers m \<or>
          (\<exists>k'. containers (snd (dispatch b m)) = AList.delete k' (containers m))"
        using reg by blast
    qed
  next
    case (ref x operation options rest)
    note d = dispatch_refused [OF len ref]
    have reg: "containers (snd (dispatch b m)) = containers m"
      using ref by (simp add: dispatch_def run_enter_other upd_fields)
    define c' where "c' = refused x options ((heap m ! b)\<lparr>queue := rest\<rparr>)"
    have ct: "chain_tail (heap m ! b) = OpTask x operation options # rest" "chain_tail c' = rest"
      using ref(1,2) by (simp_all add: chain_tail_def c'_def refused_def)
    have co: "completed c' = Suc (completed (heap m ! b))" "cid c' = cid (heap m ! b)"
      by (simp_all add: c'_def refused_def)
    show ?thesis
    proof (rule awaited_update [OF aw d(1) _ _ dispatch_creations])
      assume "b = a"
      then show "cid (refused x options ((heap m ! b)\<lparr>queue := rest\<rparr>)) = cid (heap m ! a) \<and>
          (finalize_before n (heap m ! a) \<longrightarrow>
             finalize_before n (refused x options ((heap m ! b)\<lparr>queue := rest\<rparr>)) \<or>
             containers_get (snd (dispatch b m)) k = None)"
        using finalize_before_pop [OF _ ct(1) _ co(1) ct(2)] co(2)
        unfolding c'_def by auto
    next
      show "containers (snd (dispatch b m)) = containers m \<or>
          (\<exists>k'. containers (snd (dispatch b m)) = AList.delete k' (containers m))"
        using reg by blast
    qed
  qed
qed

lemma awaited_run_resume:
  assumes aw: "awaited a n k j m" and len: "b < length (heap m)"
  shows "awaited a n k j (snd (run_resume b m))"
proof (cases "\<exists>fl r. current (heap m ! b) = Some fl \<and> settled fl = Some r")
  case True
  then obtain fl r where fl: "current (heap m ! b) = Some fl" "settled fl = Some r"
    by blast
  note rr = run_resume_settled [OF len fl]
  define c' where
    "c' = resumed fl r (clock m (ticks m)) (clock m (Suc (ticks m))) (heap m ! b)"
  have ct: "chain_tail (heap m ! b) =
      OpTask (op_ticket fl) (op_kind fl) (op_opts fl) # queue (heap m ! b)"
    "chain_tail c' = queue (heap m ! b)"
    using fl(1) by (simp_all add: chain_tail_def c'_def resumed_fields)
  have co: "completed c' = Suc (completed (heap m ! b))" "cid c' = cid (heap m ! b)"
    by (simp_all add: c'_def resumed_fields)
  show ?thesis
  proof (rule awaited_update [OF aw rr(2) _ _ run_resume_creations])
    assume "b = a"
    then show "cid (resumed fl r (clock m (ticks m)) (clock m (Suc (ticks m))) (heap m ! b)) =
          cid (heap m ! a) \<and>
        (finalize_before n (heap m ! a) \<longrightarrow>
           finalize_before n (resumed fl r (clock m (ticks m)) (clock m (Suc (ticks m)))
             (heap m ! b)) \<or>
           containers_get (snd (run_resume b m)) k = None)"
      using finalize_before_pop [OF _ ct(1) _ co(1) ct(2)] co(2)
      unfolding c'_def by auto
  next
    show "containers (snd (run_resume b m)) = containers m \<or>
        (\<exists>k'. containers (snd (run_resume b m)) = AList.delete k' (containers m))"
      using rr(3) by blast
  qed
next
  case False
  then have "run_resume b m = (None, m)"
    by (intro run_resume_idle) (cases "current (heap m ! b)", auto)
  then show ?thesis using aw by simp
qed

lemma settled_object:
  assumes "finalize_before n c" "current c = Some fl"
  shows "finalize_before n (c\<lparr>current := Some (settle r fl)\<rparr>)"
  using assms(1) finalize_before_same [OF assms(1) _ chain_tail_settle [OF assms(2), of r]]
  by simp

lemma awaited_timer_fired:
  assumes aw: "awaited a n k j m"
  shows "awaited a n k j (timer_fired b m)"
  unfolding timer_fired_def
  by (rule awaited_update [OF aw upd_fields(1)])
    (auto simp: upd_fields settled_object split: option.splits)

lemma awaited_work_done:
  assumes aw: "awaited a n k j m"
  shows "awaited a n k j (work_done b x res m)"
proof (cases "x \<in> set (working (heap m ! b))")
  case True
  have w: "finalize_before n (c\<lparr>working := ws\<rparr>) = finalize_before n c" for c ws
    by (simp add: finalize_before_def chain_tail_def)
  show ?thesis
    unfolding work_done_def if_P [OF True]
    by (rule awaited_update [OF aw upd_fields(1)])
      (auto simp: upd_fields w settled_object split: option.splits)
next
  case False
  then show ?thesis using aw by (simp add: work_done_def)
qed

lemma on_abort_finalize_before:
  "finalize_before n c \<Longrightarrow> finalize_before n (on_abort sg c)"
  by (auto simp: on_abort_def settled_object split: option.splits)

lemma awaited_abort_signal:
  assumes aw: "awaited a n k j m"
  shows "awaited a n k j (abort_signal sg m)"
proof (cases "sg \<in> set (abortedSignals m)")
  case True
  then show ?thesis using aw by (simp add: abort_signal_def)
next
  case False
  have len: "a < length (heap m)"
    using aw by (simp add: awaited_def)
  show ?thesis
    by (rule awaited_next [OF aw])
      (use False len in \<open>auto simp: abort_signal_def on_abort_cid on_abort_finalize_before
         containers_get_def\<close>)
qed

lemma awaited_sweep_next:
  assumes aw: "awaited a n k j m"
  shows "awaited a n k j (sweep_next ids m)"
proof (cases ids)
  case Nil
  then show ?thesis
    using aw awaited_cong [of "sweep_next ids m" m] by (simp add: sweep_next_def)
next
  case (Cons k' rest)
  then show ?thesis
    using awaited_terminate [OF aw, of k']
      awaited_cong [of "sweep_next ids m" "snd (terminate k' m)"]
    by (simp add: sweep_next_def case_prod_beta)
qed

lemma awaited_evict:
  assumes aw: "awaited a n k j m"
  shows "awaited a n k j (evictIdleContainers ttl m)"
proof (cases "idleSweepRunning m")
  case True
  then show ?thesis using aw by (simp add: evictIdleContainers_def)
next
  case False
  have "awaited a n k j (snd (now (m\<lparr>idleSweepRunning := True\<rparr>)))"
    using aw awaited_cong [of "snd (now (m\<lparr>idleSweepRunning := True\<rparr>))" m]
    by (simp add: now_def)
  then show ?thesis
    using False by (simp add: evictIdleContainers_def case_prod_beta awaited_sweep_next)
qed

lemma awaited_emit_evicted:
  assumes aw: "awaited a n k j m"
  shows "awaited a n k j (emit (ContainerEvicted k') m)"
  using aw by (simp add: awaited_def emit_fields creations_append containers_get_def)
    (simp add: creations_def)

lemma awaited_sweep_resume:
  assumes aw: "awaited a n k j m"
  shows "awaited a n k j (sweep_resume m)"
  using aw
  by (auto simp: sweep_resume_def awaited_sweep_next awaited_emit_evicted split: option.splits)

lemma awaited_step:
  assumes aw: "awaited a n k j m"
  shows "awaited a n k j (step e m)"
proof (cases e)
  case CallTerminateAll
  then show ?thesis by (simp add: terminateAll_def awaited_terminate_fold [OF aw])
next
  case CallDispose
  have "awaited a n k j (m\<lparr>idleSweepTimer := None\<rparr>)"
    using aw awaited_cong [of "m\<lparr>idleSweepTimer := None\<rparr>" m] by simp
  then show ?thesis
    using CallDispose by (simp add: dispose_def terminateAll_def awaited_terminate_fold)
next
  case SweepTimer
  then show ?thesis using aw by (simp add: awaited_evict split: option.splits)
qed (use aw in \<open>simp_all add: awaited_spawn awaited_spawn_resume execute_def runFile_def
    install_def awaited_submit awaited_snapshot awaited_clone awaited_terminate awaited_dispatch
    awaited_timer_fired awaited_abort_signal awaited_work_done awaited_run_resume
    awaited_sweep_resume\<close>)

lemma awaited_exec: "awaited a n k j m \<Longrightarrow> awaited a n k j (exec es m)"
  unfolding exec_def by (induction es arbitrary: m) (simp_all add: awaited_step)


lemma terminate_awaited:
  assumes wf: "wf m" and g: "containers_get m k = Some a"
  shows "\<exists>a' n. awaited a' n k (creations k (events (snd (terminate k m)))) (snd (terminate k m)) \<and>
           (fst (terminate k m) = TDone True \<and> n = 0 \<or> fst (terminate k m) = TTask a' n \<or>
            fst (terminate k m) = TQueue a' n k)"
proof -
  have reg: "registry_ok m" using wf by (simp add: wf_def)
  note l = registry_ok_lookup [OF reg g]
  show ?thesis
  proof (cases rule: terminate_cases [of m k])
    case unknown
    then show ?thesis using g by simp
  next
    case (joined a')
    then have a': "a' = a" using g by simp
    have "FinalizeTask \<in> set (queue (heap m ! a))"
      using wf_nth [OF wf l(1)] joined(2) a' by (simp add: object_ok_def final_ok_def)
    then have "finalize_before (chained (heap m ! a)) (heap m ! a)"
      by (simp add: finalize_before_def chained_tail) (simp add: chain_tail_def)
    then have "awaited a (chained (heap m ! a)) k (creations k (events m)) m"
      using l by (simp add: awaited_def)
    then show ?thesis
      using joined(3) a' by auto
  next
    case (stale a')
    have "awaited a 0 k (creations k (events m)) (containers_delete k m)"
      using l by (simp add: awaited_def containers_delete_fields containers_get_def delete_conv')
    then show ?thesis
      using stale(3) by (auto simp: containers_delete_fields)
  next
    case (started a')
    then have a': "a' = a" using g by simp
    define c' where "c' = terminating (clock m (ticks m)) (heap m ! a)"
    have "chained (heap m ! a) - completed (heap m ! a) = length (chain_tail (heap m ! a))"
      by (simp add: chained_tail)
    then have "finalize_before (Suc (chained (heap m ! a))) c'"
      by (simp add: finalize_before_def c'_def chain_tail_terminating completed_terminating
          chained_tail)
    then have "awaited a (Suc (chained (heap m ! a))) k
        (creations k (events (snd (terminate k m)))) (snd (terminate k m))"
      using l by (simp add: awaited_def started(4) a' c'_def terminating_cid)
    then show ?thesis
      using started(3) a' by auto
  qed
qed

lemma awaited_resolved:
  assumes aw: "awaited a n k j m'" and cr: "creations k (events m') = j" and wf: "wf m'"
    and r: "r = TDone True \<and> n = 0 \<or> r = TTask a n \<or> r = TQueue a n k"
  shows "terminate_result r m' = None \<or>
         terminate_result r m' = Some True \<and> containers_get m' k = None \<and>
         k \<notin> info_id ` set (list_infos m')"
proof -
  have reg: "registry_ok m'" using wf by (simp add: wf_def)
  have gone: "containers_get m' k = None" if "\<not> finalize_before n (heap m' ! a)"
    using aw cr that by (simp add: awaited_def)
  have listed: "k \<notin> info_id ` set (list_infos m')" if "containers_get m' k = None"
    using that by (simp add: list_infos_ids [OF reg] containers_get_def map_of_eq_None_iff)
  from r consider "r = TDone True" "n = 0" | "r = TTask a n" | "r = TQueue a n k"
    by blast
  then show ?thesis
  proof cases
    case 1
    then have "\<not> finalize_before n (heap m' ! a)"
      by (simp add: finalize_before_def)
    then show ?thesis
      using gone listed 1 by (simp add: terminate_result_def)
  next
    case 2
    show ?thesis
    proof (cases "n \<le> completed (heap m' ! a)")
      case True
      then show ?thesis
        using gone [OF finalize_before_done [OF True]] listed 2
        by (simp add: terminate_result_def)
    next
      case False
      then show ?thesis using 2 by (simp add: terminate_result_def)
    qed
  next
    case 3
    show ?thesis
    proof (cases "n \<le> completed (heap m' ! a)")
      case True
      then show ?thesis
        using gone [OF finalize_before_done [OF True]] listed 3
        by (simp add: terminate_result_def)
    next
      case False
      then show ?thesis using 3 by (simp add: terminate_result_def)
    qed
  qed
qed

lemma terminate_resolved:
  assumes wf: "wf m" and g: "containers_get m k \<noteq> None"
    and cr: "creations k (events (exec es' (snd (terminate k m)))) =
             creations k (events (snd (terminate k m)))"
  shows "terminate_result (fst (terminate k m)) (exec es' (snd (terminate k m))) = None \<or>
         terminate_result (fst (terminate k m)) (exec es' (snd (terminate k m))) = Some True \<and>
         containers_get (exec es' (snd (terminate k m))) k = None \<and>
         k \<notin> info_id ` set (list_infos (exec es' (snd (terminate k m))))"
proof -
  obtain a where a: "containers_get m k = Some a" using g by blast
  obtain a' n where aw: "awaited a' n k (creations k (events (snd (terminate k m))))
      (snd (terminate k m))"
    and r: "fst (terminate k m) = TDone True \<and> n = 0 \<or> fst (terminate k m) = TTask a' n \<or>
            fst (terminate k m) = TQueue a' n k"
    using terminate_awaited [OF wf a] by blast
  have wf': "wf (exec es' (snd (terminate k m)))"
    by (rule wf_exec [OF wf_terminate [OF wf]])
  show ?thesis
    by (rule awaited_resolved [OF awaited_exec [OF aw] cr wf' r])
qed

section \<open>The claims\<close>

subsection \<open>C5: a failed spawn leaves no record\<close>

text \<open>
  C5. If runtime construction fails during \<^verbatim>\<open>spawn\<close>, the partially created record is
  deleted from the registry before the error propagates: when the suspended \<^verbatim>\<open>spawn\<close> of
  the object at \<open>a\<close> resumes with a failure (\<^verbatim>\<open>createRuntime\<close> rejected, or the package
  manager could not be built), the caller gets a construction error, and the registry
  of the resulting state has no entry for the id of that object, in whatever status:
  a lookup of the id, \<^verbatim>\<open>get(id)\<close> and the keys of the registry all miss it.
\<close>

theorem failed_spawn_leaves_no_record:
  assumes "a < length (heap m)"
    and "awaitingRuntime (heap m ! a) \<noteq> None"
    and "outcome = ConstructFailed msg \<or> outcome = PackageManagerFailed rt msg"
  shows "(\<exists>e. fst (spawn_resume a outcome m) = Some (Inl (ConstructionError e))) \<and>
         containers_get (snd (spawn_resume a outcome m)) (cid (heap m ! a)) = None \<and>
         get (snd (spawn_resume a outcome m)) (cid (heap m ! a)) = None \<and>
         cid (heap m ! a) \<notin> fst ` set (containers (snd (spawn_resume a outcome m)))"
proof -
  obtain d where d: "awaitingRuntime (heap m ! a) = Some d"
    using assms(2) by blast
  define m0 where "m0 = upd a (\<lambda>c. c\<lparr>awaitingRuntime := None\<rparr>) m"
  define m1 where
    "m1 = (case outcome of PackageManagerFailed rt' _ \<Rightarrow>
             upd a (\<lambda>c. c\<lparr>runtime := Some rt', runtimeMode := detectRuntimeMode rt'\<rparr>) m0
           | _ \<Rightarrow> m0)"
  have len: "a < length (heap m1)" and cid1: "cid (heap m1 ! a) = cid (heap m ! a)"
    and reg1: "containers m1 = containers m"
    using assms(1,3) by (auto simp: m1_def m0_def upd_fields)
  have res: "spawn_resume a outcome m =
      (Some (Inl (fst (spawn_catch a msg m1))), snd (spawn_catch a msg m1))"
    using assms(3) d by (auto simp: spawn_resume_def m1_def m0_def Let_def case_prod_beta)
  have del: "containers (snd (spawn_resume a outcome m)) =
      AList.delete (cid (heap m ! a)) (containers m)"
    by (simp add: res spawn_catch_registry [OF len] cid1 reg1)
  have e: "\<exists>e. fst (spawn_resume a outcome m) = Some (Inl (ConstructionError e))"
    using spawn_catch_error [of a msg m1] by (simp add: res)
  have g: "containers_get (snd (spawn_resume a outcome m)) (cid (heap m ! a)) = None"
    by (simp add: containers_get_def del delete_conv')
  show ?thesis
    using e g by (simp add: get_def del delete_notin_dom)
qed

lemma spawning_state_facts:
  "length (heap spawning_state) = 1"
  "awaitingRuntime (heap spawning_state ! 0) = Some ''/''"
  "cid (heap spawning_state ! 0) = ''a''"
  "containers spawning_state = [(''a'', 0)]"
  unfolding spawning_state_def by code_simp+

theorem failed_spawn_leaves_no_record_witness:
  "containers_get spawning_state ''a'' = Some 0 \<and>
   containers_get (snd (spawn_resume 0 (ConstructFailed ''boom'') spawning_state)) ''a'' = None \<and>
   get (snd (spawn_resume 0 (ConstructFailed ''boom'') spawning_state)) ''a'' = None"
proof -
  have h1: "0 < length (heap spawning_state)"
    and h2: "awaitingRuntime (heap spawning_state ! 0) \<noteq> None"
    by (simp_all add: spawning_state_facts)
  have h3: "ConstructFailed ''boom'' = ConstructFailed ''boom'' \<or>
            ConstructFailed ''boom'' = PackageManagerFailed demo_runtime ''boom''"
    by simp
  show ?thesis
    using failed_spawn_leaves_no_record [OF h1 h2 h3]
    by (simp add: spawning_state_facts containers_get_def)
qed

subsection \<open>C8: when snapshot fails\<close>

text \<open>
  C8 (as amended). \<^verbatim>\<open>snapshot(id)\<close> fails when the id is absent from the registry (not
  found) and also when the record is present in status \<^verbatim>\<open>terminating\<close> or
  \<^verbatim>\<open>terminated\<close> (the guard of \<^verbatim>\<open>requireContainer\<close>); for every id present in any other
  status it returns the snapshot of the container's filesystem.
\<close>

theorem snapshot_result:
  "fst (snapshot k m) =
     (case containers_get m k of
        None \<Rightarrow> Inl (NotFound k)
      | Some a \<Rightarrow>
          if status (heap m ! a) = Terminating \<or> status (heap m ! a) = Terminated
          then Inl (IsFinalizing k (status (heap m ! a)))
          else Inr (toSnapshot (vfs (heap m ! a))))"
  by (auto simp: snapshot_def requireContainer_def Let_def case_prod_beta field_simps
      nth_list_update_self split: option.splits)

lemma ready_state_facts:
  "containers ready_state = [(''a'', 0)]"
  "length (heap ready_state) = 1"
  "status (heap ready_state ! 0) = Ready"
  "vfs (heap ready_state ! 0) = [(''/app.js'', ''x'')]"
  "lastUsedAt (heap ready_state ! 0) = 0"
  "activeOperations (heap ready_state ! 0) = 0"
  "pendingOperations (heap ready_state ! 0) = 0"
  "cid (heap ready_state ! 0) = ''a''"
  "ticks ready_state = 2"
  "clock ready_state 2 = 20"
  "clock ready_state 3 = 30"
  unfolding ready_state_def by code_simp+

theorem snapshot_result_witness:
  "fst (snapshot ''a'' ready_state) = Inr [(''/app.js'', ''x'')] \<and>
   fst (snapshot ''b'' ready_state) = Inl (NotFound ''b'')"
  using snapshot_result [of "''a''" ready_state] snapshot_result [of "''b''" ready_state]
  by (simp add: ready_state_facts containers_get_def toSnapshot_def)

lemma terminating_state_facts:
  "containers terminating_state = [(''a'', 0)]"
  "status (heap terminating_state ! 0) = Terminating"
  "activeOperations (heap terminating_state ! 0) = 1"
  unfolding terminating_state_def busy_state_def by code_simp+

text \<open>The claim as stated fails: here the id is in the registry and \<^verbatim>\<open>snapshot\<close>
  throws.\<close>

theorem snapshot_of_terminating_fails:
  "containers_get terminating_state ''a'' = Some 0 \<and>
   fst (snapshot ''a'' terminating_state) = Inl (IsFinalizing ''a'' Terminating)"
  by (simp add: snapshot_def requireContainer_def containers_get_def terminating_state_facts)

subsection \<open>C10: what snapshot changes\<close>

text \<open>
  C10. \<^verbatim>\<open>snapshot(id)\<close> on a container that passes \<^verbatim>\<open>requireContainer\<close> returns the
  snapshot of its filesystem, sets \<^verbatim>\<open>lastUsedAt\<close> to the reading of the clock and
  \<^verbatim>\<open>updatedAt\<close> to the next reading (the source calls \<^verbatim>\<open>this.now()\<close> twice), and changes
  nothing else: every other field of the record, every other object, the registry,
  the counters and the events are as before (the clock has been read twice). As a
  consequence the idle clock of the container restarts: a sweep whose reading of the
  clock is less than the threshold after that \<^verbatim>\<open>lastUsedAt\<close> does not select it.
\<close>

theorem snapshot_touches_only_timestamps:
  assumes "registry_ok m" and "requireContainer m k = Inr a"
  shows "snapshot k m =
           (Inr (toSnapshot (vfs (heap m ! a))),
            m\<lparr>heap := (heap m)[a := (heap m ! a)\<lparr>lastUsedAt := clock m (ticks m),
                                                  updatedAt := clock m (Suc (ticks m))\<rparr>],
              ticks := Suc (Suc (ticks m))\<rparr>) \<and>
         (\<forall>t ttl. t - clock m (ticks m) < ttl \<longrightarrow>
            k \<notin> set (idleCandidates ttl t (snd (snapshot k m))))"
proof -
  have get: "containers_get m k = Some a"
    using assms(2) by (auto simp: requireContainer_def split: option.splits if_splits)
  have len: "a < length (heap m)" and cidk: "cid (heap m ! a) = k"
    using registry_ok_lookup [OF assms(1) get] by auto
  have st: "snd (snapshot k m) =
     m\<lparr>heap := (heap m)[a := (heap m ! a)\<lparr>lastUsedAt := clock m (ticks m),
                                           updatedAt := clock m (Suc (ticks m))\<rparr>],
       ticks := Suc (Suc (ticks m))\<rparr>"
    by (rule snapshot_state [OF assms(2)])
  have res: "fst (snapshot k m) = Inr (toSnapshot (vfs (heap m ! a)))"
    using assms(2)
    by (auto simp: snapshot_def Let_def case_prod_beta field_simps nth_list_update_self)
  have "k \<notin> set (idleCandidates ttl t (snd (snapshot k m)))"
    if lt: "t - clock m (ticks m) < ttl" for t ttl
  proof
    assume "k \<in> set (idleCandidates ttl t (snd (snapshot k m)))"
    then obtain p where p: "p \<in> set (containers m)"
      and idl: "idle ttl t (heap (snd (snapshot k m)) ! snd p)"
      and ck: "cid (heap (snd (snapshot k m)) ! snd p) = k"
      by (auto simp: idleCandidates_def st)
    have plen: "snd p < length (heap m)"
      using assms(1) p unfolding registry_ok_def by blast
    have "cid (heap m ! snd p) = k"
      using ck plen by (cases "snd p = a") (auto simp: st)
    then have "snd p = a"
      using registry_ok_unique [OF assms(1) p _ get] by simp
    then show False
      using idl lt len by (simp add: st idle_def)
  qed
  then show ?thesis
    using st res by (metis prod.collapse)
qed

lemma ready_state_registry_ok: "registry_ok ready_state"
  by (simp add: registry_ok_def ready_state_facts)

theorem snapshot_touches_only_timestamps_witness:
  "registry_ok ready_state \<and> requireContainer ready_state ''a'' = Inr 0 \<and>
   ''a'' \<in> set (idleCandidates 1000 1010 ready_state) \<and>
   lastUsedAt (heap (snd (snapshot ''a'' ready_state)) ! 0) = 20 \<and>
   updatedAt (heap (snd (snapshot ''a'' ready_state)) ! 0) = 30 \<and>
   status (heap (snd (snapshot ''a'' ready_state)) ! 0) = Ready \<and>
   containers (snd (snapshot ''a'' ready_state)) = containers ready_state \<and>
   ''a'' \<notin> set (idleCandidates 1000 1010 (snd (snapshot ''a'' ready_state)))"
proof -
  have h2: "requireContainer ready_state ''a'' = Inr 0"
    by (simp add: requireContainer_def containers_get_def ready_state_facts)
  note inst = snapshot_touches_only_timestamps [OF ready_state_registry_ok h2]
  have st: "snd (snapshot ''a'' ready_state) =
      ready_state\<lparr>heap := (heap ready_state)[0 := (heap ready_state ! 0)\<lparr>lastUsedAt := 20,
                       updatedAt := 30\<rparr>], ticks := 4\<rparr>"
    using inst by (simp add: ready_state_facts)
  have "(1010::int) - clock ready_state (ticks ready_state) < 1000 \<longrightarrow>
      ''a'' \<notin> set (idleCandidates 1000 1010 (snd (snapshot ''a'' ready_state)))"
    using inst by blast
  then have no: "''a'' \<notin> set (idleCandidates 1000 1010 (snd (snapshot ''a'' ready_state)))"
    by (simp add: ready_state_facts)
  have yes: "''a'' \<in> set (idleCandidates 1000 1010 ready_state)"
    by (simp add: idleCandidates_def idle_def ready_state_facts)
  show ?thesis
    using no yes h2 ready_state_registry_ok by (simp add: st ready_state_facts)
qed

subsection \<open>C7: the failure counters\<close>

lemma run_finally_metrics: "metricsBase (run_finally a fl r m) = metricsBase m"
  by (simp add: run_finally_def Let_def case_prod_beta field_simps setStatus_fields)

lemma run_catch_metrics:
  "metricsBase (run_catch a e m) =
     (metricsBase m)\<lparr>operationsFailed := operationsFailed (metricsBase m) + 1,
        operationTimeouts := operationTimeouts (metricsBase m) + (if is_timeout e then 1 else 0),
        operationAborted := operationAborted (metricsBase m) + (if is_aborted e then 1 else 0)\<rparr>"
  by (simp add: run_catch_def Let_def field_simps)

lemma run_resume_failed:
  assumes "current (heap m ! a) = Some fl" "settled fl = Some (Inl e)"
  shows "fst (run_resume a m) = Some (Inl e)"
    and "metricsBase (snd (run_resume a m)) =
     (metricsBase m)\<lparr>operationsFailed := operationsFailed (metricsBase m) + 1,
        operationTimeouts := operationTimeouts (metricsBase m) + (if is_timeout e then 1 else 0),
        operationAborted := operationAborted (metricsBase m) + (if is_aborted e then 1 else 0)\<rparr>"
  using assms
  by (simp_all add: run_resume_def Let_def upd_fields run_finally_metrics run_catch_metrics)

lemma submit_rejected:
  "fst (submit operation k options m) = Inl e \<Longrightarrow> snd (submit operation k options m) = m"
  by (simp add: submit_def case_prod_beta split: sum.splits)

lemma spawn_rejected:
  "fst (spawn so m) = Inl e \<Longrightarrow> metricsBase (snd (spawn so m)) = metricsBase m"
  by (simp add: spawn_def Let_def case_prod_beta split: if_splits option.splits)

lemma spawn_catch_metrics: "metricsBase (snd (spawn_catch a msg m)) = metricsBase m"
  by (simp add: spawn_catch_def Let_def field_simps setStatus_fields
      split: option.splits runtime.splits)

lemma spawn_resume_metrics:
  "metricsBase (snd (spawn_resume a outcome m)) = metricsBase m"
  by (simp add: spawn_resume_def Let_def case_prod_beta field_simps setStatus_fields
      spawn_catch_metrics split: option.splits construct_outcome.splits)

lemma dispatch_refused_metrics:
  assumes "a < length (heap m)" "current (heap m ! a) = None"
    "queue (heap m ! a) = OpTask n operation options # rest"
    "isFinalizingStatus (status (heap m ! a))"
  shows "metricsBase (snd (dispatch a m)) = metricsBase m"
  using assms
  by (simp add: dispatch_def run_enter_def isFinalizingStatus_def Let_def upd_fields)

lemma spawn_accepted_metrics:
  "fst (spawn so m) = Inr b \<Longrightarrow>
   metricsBase (snd (spawn so m)) =
     (metricsBase m)\<lparr>containersCreated := containersCreated (metricsBase m) + 1\<rparr>"
  by (simp add: spawn_def Let_def case_prod_beta field_simps split: if_splits option.splits)

lemma snapshot_rejected: "fst (snapshot k m) = Inl e \<Longrightarrow> snd (snapshot k m) = m"
  by (simp add: snapshot_def Let_def case_prod_beta split: sum.splits)

lemma clone_rejected:
  "fst (clone k so m) = Inl e \<Longrightarrow> metricsBase (snd (clone k so m)) = metricsBase m"
  by (cases "requireContainer m k") (simp_all add: clone_def Let_def spawn_rejected)

text \<open>
  C7 (as amended). When an operation that \<^verbatim>\<open>run\<close> has admitted fails (its
  \<^verbatim>\<open>runWithControls\<close> promise rejects, by timeout, by abort or with an error of its
  task), the caller gets that error, \<^verbatim>\<open>operationsFailed\<close> is incremented by one, a
  timeout also increments \<^verbatim>\<open>operationTimeouts\<close> and an abort also increments
  \<^verbatim>\<open>operationAborted\<close>. No other failure of a public operation changes a counter:
  \<^verbatim>\<open>execute\<close>, \<^verbatim>\<open>runFile\<close>, \<^verbatim>\<open>install\<close> and \<^verbatim>\<open>snapshot\<close> rejected by \<^verbatim>\<open>requireContainer\<close>
  (not found, finalizing) leave the whole state as it was, and \<^verbatim>\<open>clone\<close> rejected
  leaves the counters as they were; an operation that \<^verbatim>\<open>run\<close> refuses with the
  finalizing error, because the container is terminating or terminated when its turn
  comes, leaves the counters as they were; \<^verbatim>\<open>spawn\<close> rejected for capacity or for a
  duplicate id leaves the counters as they were; and a \<^verbatim>\<open>spawn\<close> whose construction
  fails leaves the counters as they were when it fails: the call has incremented
  \<^verbatim>\<open>containersCreated\<close>, and only that counter, when it registered the record, and the
  failure does not take this back.
\<close>

theorem failure_counters:
  "(current (heap m ! a) = Some fl \<and> settled fl = Some (Inl e) \<longrightarrow>
      fst (run_resume a m) = Some (Inl e) \<and>
      metricsBase (snd (run_resume a m)) =
        (metricsBase m)\<lparr>operationsFailed := operationsFailed (metricsBase m) + 1,
           operationTimeouts :=
             operationTimeouts (metricsBase m) + (if is_timeout e then 1 else 0),
           operationAborted :=
             operationAborted (metricsBase m) + (if is_aborted e then 1 else 0)\<rparr>) \<and>
   (fst (submit operation k options m) = Inl e \<longrightarrow>
      snd (submit operation k options m) = m) \<and>
   (fst (snapshot k m) = Inl e \<longrightarrow> snd (snapshot k m) = m) \<and>
   (fst (clone k so m) = Inl e \<longrightarrow> metricsBase (snd (clone k so m)) = metricsBase m) \<and>
   (a < length (heap m) \<and> current (heap m ! a) = None \<and>
    queue (heap m ! a) = OpTask n operation options # rest \<and>
    isFinalizingStatus (status (heap m ! a)) \<longrightarrow>
      fst (dispatch a m) = Some (IsFinalizing (cid (heap m ! a)) (status (heap m ! a))) \<and>
      metricsBase (snd (dispatch a m)) = metricsBase m) \<and>
   (fst (spawn so m) = Inl e \<longrightarrow> metricsBase (snd (spawn so m)) = metricsBase m) \<and>
   (fst (spawn so m) = Inr b \<longrightarrow>
      metricsBase (snd (spawn so m)) =
        (metricsBase m)\<lparr>containersCreated := containersCreated (metricsBase m) + 1\<rparr>) \<and>
   metricsBase (snd (spawn_resume a outcome m)) = metricsBase m"
  using run_resume_failed [of m a fl e] submit_rejected [of operation k options m e]
    snapshot_rejected [of k m e] clone_rejected [of k so m e]
    dispatch_refused(2) [of a m n operation options rest]
    dispatch_refused_metrics [of a m n operation options rest]
    spawn_rejected [of so m e] spawn_accepted_metrics [of so m b]
    spawn_resume_metrics [of a outcome m]
  by blast

text \<open>The operation in flight of \<open>busy_state\<close> has timed out; its \<^verbatim>\<open>run\<close> has not resumed
  yet.\<close>

definition timed_out_state :: manager where
  "timed_out_state = exec [TimerFired 0] busy_state"

lemma timed_out_state_facts:
  "current (heap timed_out_state ! 0) \<noteq> None"
  "settled (the (current (heap timed_out_state ! 0))) =
     Some (Inl (OperationTimeoutError Execute ''a'' 25))"
  "operationsFailed (metricsBase timed_out_state) = 0"
  "operationTimeouts (metricsBase timed_out_state) = 0"
  "operationAborted (metricsBase timed_out_state) = 0"
  unfolding timed_out_state_def busy_state_def by code_simp+

text \<open>An operation waits on the ready container \<open>a\<close>, and \<^verbatim>\<open>terminate\<close> was called before
  its promise job ran.\<close>

definition finalizing_queue_state :: manager where
  "finalizing_queue_state =
     exec [CallSpawn (demo_spawn ''a''), ResumeSpawn 0 (Constructed demo_runtime),
           CallExecute ''a'' (with_timeout (Fin 25)), CallTerminate ''a'']
       (new_manager demo_options)"

lemma finalizing_queue_state_facts:
  "length (heap finalizing_queue_state) = 1"
  "current (heap finalizing_queue_state ! 0) = None"
  "queue (heap finalizing_queue_state ! 0) =
     [OpTask 0 Execute (with_timeout (Fin 25)), FinalizeTask]"
  "status (heap finalizing_queue_state ! 0) = Terminating"
  "cid (heap finalizing_queue_state ! 0) = ''a''"
  "operationsFailed (metricsBase finalizing_queue_state) = 0"
  unfolding finalizing_queue_state_def by code_simp+

lemma spawning_state_counters:
  "containersCreated (metricsBase (new_manager demo_options)) = 0"
  "containersCreated (metricsBase spawning_state) = 1"
  "operationsFailed (metricsBase spawning_state) = 0"
  unfolding spawning_state_def by code_simp+

theorem failure_counters_witness:
  "fst (run_resume 0 timed_out_state) = Some (Inl (OperationTimeoutError Execute ''a'' 25)) \<and>
   operationsFailed (metricsBase (snd (run_resume 0 timed_out_state))) = 1 \<and>
   operationTimeouts (metricsBase (snd (run_resume 0 timed_out_state))) = 1 \<and>
   operationAborted (metricsBase (snd (run_resume 0 timed_out_state))) = 0 \<and>
   fst (dispatch 0 finalizing_queue_state) = Some (IsFinalizing ''a'' Terminating) \<and>
   operationsFailed (metricsBase (snd (dispatch 0 finalizing_queue_state))) = 0 \<and>
   containersCreated (metricsBase
     (snd (spawn_resume 0 (ConstructFailed ''boom'') spawning_state))) = 1 \<and>
   operationsFailed (metricsBase
     (snd (spawn_resume 0 (ConstructFailed ''boom'') spawning_state))) = 0"
proof -
  have h: "current (heap timed_out_state ! 0) = Some (the (current (heap timed_out_state ! 0)))"
    using timed_out_state_facts(1) by simp
  have t: "fst (run_resume 0 timed_out_state) =
      Some (Inl (OperationTimeoutError Execute ''a'' 25)) \<and>
    operationsFailed (metricsBase (snd (run_resume 0 timed_out_state))) = 1 \<and>
    operationTimeouts (metricsBase (snd (run_resume 0 timed_out_state))) = 1 \<and>
    operationAborted (metricsBase (snd (run_resume 0 timed_out_state))) = 0"
    using failure_counters [where m = timed_out_state and a = 0
        and fl = "the (current (heap timed_out_state ! 0))"
        and e = "OperationTimeoutError Execute ''a'' 25"] h
    by (simp add: timed_out_state_facts)
  have q: "0 < length (heap finalizing_queue_state) \<and>
      current (heap finalizing_queue_state ! 0) = None \<and>
      queue (heap finalizing_queue_state ! 0) =
        OpTask 0 Execute (with_timeout (Fin 25)) # [FinalizeTask] \<and>
      isFinalizingStatus (status (heap finalizing_queue_state ! 0))"
    by (simp add: finalizing_queue_state_facts isFinalizingStatus_def)
  have r: "fst (dispatch 0 finalizing_queue_state) = Some (IsFinalizing ''a'' Terminating) \<and>
      operationsFailed (metricsBase (snd (dispatch 0 finalizing_queue_state))) = 0"
    using failure_counters [where m = finalizing_queue_state and a = 0 and n = 0
        and operation = Execute and options = "with_timeout (Fin 25)"
        and rest = "[FinalizeTask]"] q
    by (simp add: finalizing_queue_state_facts)
  have s: "metricsBase (snd (spawn_resume 0 (ConstructFailed ''boom'') spawning_state)) =
      metricsBase spawning_state"
    using failure_counters [where m = spawning_state and a = 0
        and outcome = "ConstructFailed ''boom''"]
    by simp
  show ?thesis
    using t r by (simp add: s spawning_state_counters)
qed

text \<open>The claim as stated fails: \<^verbatim>\<open>execute\<close> on an unknown id fails with the not-found
  error, and \<^verbatim>\<open>operationsFailed\<close> is what it was.\<close>

theorem not_found_is_not_counted:
  "fst (execute ''nope'' (with_timeout (Fin 25)) ready_state) = Inl (NotFound ''nope'') \<and>
   operationsFailed (metricsBase ready_state) = 0 \<and>
   operationsFailed (metricsBase (snd (execute ''nope'' (with_timeout (Fin 25)) ready_state))) = 0"
proof -
  have "operationsFailed (metricsBase ready_state) = 0"
    unfolding ready_state_def by code_simp
  then show ?thesis
    by (simp add: execute_def submit_def requireContainer_def containers_get_def
        ready_state_facts)
qed

subsection \<open>C2: the operation counters\<close>

text \<open>
  C2. At every instant, every container record in the registry has
  \<^verbatim>\<open>activeOperations\<close> 0 or 1 and \<^verbatim>\<open>pendingOperations\<close> at least \<^verbatim>\<open>activeOperations\<close>:
  this holds in every state the manager reaches from its construction by any
  sequence of events, that is by calls of \<^verbatim>\<open>spawn\<close>, \<^verbatim>\<open>execute\<close>, \<^verbatim>\<open>runFile\<close>,
  \<^verbatim>\<open>install\<close>, \<^verbatim>\<open>snapshot\<close>, \<^verbatim>\<open>clone\<close>, \<^verbatim>\<open>terminate\<close>, \<^verbatim>\<open>terminateAll\<close>, \<^verbatim>\<open>dispose\<close>,
  by the idle sweep, and by the continuations of all of these in any interleaving.
\<close>

theorem counters_invariant:
  "\<forall>p \<in> set (containers (exec es (new_manager options))).
     (activeOperations (heap (exec es (new_manager options)) ! snd p) = 0 \<or>
      activeOperations (heap (exec es (new_manager options)) ! snd p) = 1) \<and>
     activeOperations (heap (exec es (new_manager options)) ! snd p)
       \<le> pendingOperations (heap (exec es (new_manager options)) ! snd p)"
proof
  fix p
  define m where "m = exec es (new_manager options)"
  assume "p \<in> set (containers (exec es (new_manager options)))"
  then have p: "p \<in> set (containers m)" by (simp add: m_def)
  have wf: "wf m" unfolding m_def by (rule wf_reachable)
  then have "snd p < length (heap m)"
    using p unfolding wf_def registry_ok_def by blast
  then have "counts_ok (heap m ! snd p)"
    using wf_nth [OF wf] by (simp add: object_ok_def)
  then have "(activeOperations (heap m ! snd p) = 0 \<or> activeOperations (heap m ! snd p) = 1) \<and>
     activeOperations (heap m ! snd p) \<le> pendingOperations (heap m ! snd p)"
    by (auto simp: counts_ok_def in_flight_def split: option.splits)
  then show "(activeOperations (heap (exec es (new_manager options)) ! snd p) = 0 \<or>
      activeOperations (heap (exec es (new_manager options)) ! snd p) = 1) \<and>
     activeOperations (heap (exec es (new_manager options)) ! snd p)
       \<le> pendingOperations (heap (exec es (new_manager options)) ! snd p)"
    by (simp add: m_def)
qed

lemma busy_state_facts:
  "containers busy_state = [(''a'', 0)]"
  "length (heap busy_state) = 1"
  "activeOperations (heap busy_state ! 0) = 1"
  "pendingOperations (heap busy_state ! 0) = 2"
  "status (heap busy_state ! 0) = Busy"
  unfolding busy_state_def by code_simp+

theorem counters_invariant_witness:
  "(''a'', 0) \<in> set (containers busy_state) \<and>
   activeOperations (heap busy_state ! 0) = 1 \<and>
   pendingOperations (heap busy_state ! 0) = 2 \<and>
   activeOperations (heap busy_state ! 0) \<le> pendingOperations (heap busy_state ! 0)"
proof -
  have p: "(''a'', 0) \<in> set (containers busy_state)"
    by (simp add: busy_state_facts)
  have "activeOperations (heap busy_state ! snd (''a'', 0::nat))
          \<le> pendingOperations (heap busy_state ! snd (''a'', 0::nat))"
    using counters_invariant [of "[CallSpawn (demo_spawn ''a''),
        ResumeSpawn 0 (Constructed demo_runtime),
        CallExecute ''a'' (with_timeout (Fin 25)), CallRunFile ''a'' (with_timeout (Fin 0)),
        Dispatch 0]" demo_options] p
    unfolding busy_state_def [symmetric] by blast
  then show ?thesis
    using p by (simp add: busy_state_facts)
qed

subsection \<open>C1: operations of one container run in submission order, one at a time\<close>

text \<open>
  C1. For every container and every sequence of operations submitted against it, the
  operations start in their submission order and no two overlap. In every state the
  manager reaches, for every container object: the tickets of the operations
  submitted are distinct; the operations whose \<^verbatim>\<open>run\<close> has started (\<open>begun\<close>) are a
  prefix of the operations submitted, and the rest are the ones waiting in the
  queue, in order; and the operations begun are the ones that have settled
  (\<open>ended\<close>), in the same order, followed by at most one operation in flight. So
  when an operation begins, every operation begun before it has settled, by
  success or by failure. (The external work of an operation that settled by timeout
  or abort may still be running; see C3.)
\<close>

theorem operations_serialized:
  "\<forall>c \<in> set (heap (exec es (new_manager options))).
     distinct (submitted c) \<and>
     prefix (begun c) (submitted c) \<and>
     submitted c = begun c @ tickets (queue c) \<and>
     begun c = map fst (ended c) @ in_flight c \<and>
     length (in_flight c) \<le> 1"
proof
  fix c
  assume "c \<in> set (heap (exec es (new_manager options)))"
  then have "object_ok c"
    using wf_reachable [of es options] by (simp add: wf_def heap_ok_def)
  then have s: "seq_ok c" and t: "tickets_ok c"
    by (simp_all add: object_ok_def)
  have "prefix (begun c) (submitted c)"
    using s by (simp add: seq_ok_def)
  moreover have "length (in_flight c) \<le> 1"
    by (simp add: in_flight_def split: option.splits)
  ultimately show "distinct (submitted c) \<and>
     prefix (begun c) (submitted c) \<and>
     submitted c = begun c @ tickets (queue c) \<and>
     begun c = map fst (ended c) @ in_flight c \<and>
     length (in_flight c) \<le> 1"
    using s t by (simp add: seq_ok_def tickets_ok_def)
qed

text \<open>Three operations were submitted to container \<open>a\<close>; the first has timed out, the
  second is in flight, the third waits.\<close>

definition second_running_state :: manager where
  "second_running_state =
     exec [CallSpawn (demo_spawn ''a''), ResumeSpawn 0 (Constructed demo_runtime),
           CallExecute ''a'' (with_timeout (Fin 25)), CallRunFile ''a'' (with_timeout (Fin 0)),
           CallInstall ''a'' (with_timeout PosInf),
           Dispatch 0, TimerFired 0, ResumeRun 0, Dispatch 0]
       (new_manager demo_options)"

lemma second_running_state_facts:
  "length (heap second_running_state) = 1"
  "submitted (heap second_running_state ! 0) = [0, 1, 2]"
  "begun (heap second_running_state ! 0) = [0, 1]"
  "map fst (ended (heap second_running_state ! 0)) = [0]"
  "in_flight (heap second_running_state ! 0) = [1]"
  "tickets (queue (heap second_running_state ! 0)) = [2]"
  unfolding second_running_state_def by code_simp+

theorem operations_serialized_witness:
  "heap second_running_state ! 0 \<in> set (heap second_running_state) \<and>
   submitted (heap second_running_state ! 0) = [0, 1, 2] \<and>
   begun (heap second_running_state ! 0) = [0, 1] \<and>
   map fst (ended (heap second_running_state ! 0)) = [0] \<and>
   in_flight (heap second_running_state ! 0) = [1] \<and>
   prefix (begun (heap second_running_state ! 0)) (submitted (heap second_running_state ! 0))"
proof -
  have c: "heap second_running_state ! 0 \<in> set (heap second_running_state)"
    by (simp add: second_running_state_facts)
  have "prefix (begun (heap second_running_state ! 0))
          (submitted (heap second_running_state ! 0))"
    using operations_serialized [of "[CallSpawn (demo_spawn ''a''),
        ResumeSpawn 0 (Constructed demo_runtime),
        CallExecute ''a'' (with_timeout (Fin 25)), CallRunFile ''a'' (with_timeout (Fin 0)),
        CallInstall ''a'' (with_timeout PosInf),
        Dispatch 0, TimerFired 0, ResumeRun 0, Dispatch 0]" demo_options] c
    unfolding second_running_state_def [symmetric] by blast
  then show ?thesis
    using c by (simp add: second_running_state_facts)
qed

subsection \<open>C9: no timer for a timeout that is not a finite positive number\<close>

text \<open>
  C9 (as amended). If an operation is submitted with \<^verbatim>\<open>timeoutMs\<close> equal to 0, negative or
  not finite (\<open>unarmed\<close>: \<^verbatim>\<open>timeoutMs\<close> is given and \<^verbatim>\<open>Number.isFinite(timeoutMs) && timeoutMs > 0\<close>
  is false), no timer is armed and the operation never fails with a timeout error.
  In every state the manager reaches, for every container object: an operation in
  flight with such options has no timer, the firing of a timer leaves the state as
  it is, and if its promise has settled it has settled with a value, an abort error
  or an error of its task; an operation with such options that has ended has ended
  in one of these ways or was refused by \<^verbatim>\<open>run\<close> before it started, and has no timeout
  error; and \<^verbatim>\<open>run\<close> refuses the operation whose turn has come, with the finalizing
  error, exactly when the container is terminating or terminated at that moment.
\<close>

theorem no_timer_no_timeout:
  fixes es options
  defines "m \<equiv> exec es (new_manager options)"
  shows "\<forall>a < length (heap m).
     (\<forall>fl. current (heap m ! a) = Some fl \<longrightarrow> unarmed (op_opts fl) \<longrightarrow>
           timer fl = None \<and> timer_fired a m = m \<and>
           (\<forall>r. settled fl = Some r \<longrightarrow> abort_or_work r)) \<and>
     (\<forall>x \<in> set (ended (heap m ! a)). unarmed (fst (snd x)) \<longrightarrow>
        (abort_or_work (snd (snd x)) \<or> refused_by_run (snd (snd x))) \<and>
        no_timeout (snd (snd x))) \<and>
     (\<forall>n operation opts rest.
        current (heap m ! a) = None \<longrightarrow>
        queue (heap m ! a) = OpTask n operation opts # rest \<longrightarrow>
        fst (dispatch a m) =
          (if isFinalizingStatus (status (heap m ! a))
           then Some (IsFinalizing (cid (heap m ! a)) (status (heap m ! a))) else None))"
proof (intro allI impI)
  fix a
  assume len: "a < length (heap m)"
  have "timer_ok (heap m ! a)"
    using wf_nth [OF wf_reachable [of es options]] len by (simp add: object_ok_def m_def)
  then have t: "\<forall>fl. current (heap m ! a) = Some fl \<longrightarrow> unarmed (op_opts fl) \<longrightarrow>
           timer fl = None \<and> timer_fired a m = m \<and>
           (\<forall>r. settled fl = Some r \<longrightarrow> abort_or_work r)"
    and e: "\<forall>x \<in> set (ended (heap m ! a)). unarmed (fst (snd x)) \<longrightarrow>
        abort_or_work (snd (snd x)) \<or> refused_by_run (snd (snd x))"
    unfolding timer_ok_def using timer_fired_unarmed [of m a] by blast+
  have e': "\<forall>x \<in> set (ended (heap m ! a)). unarmed (fst (snd x)) \<longrightarrow>
        (abort_or_work (snd (snd x)) \<or> refused_by_run (snd (snd x))) \<and>
        no_timeout (snd (snd x))"
    using e abort_or_work_no_timeout refused_by_run_no_timeout by blast
  have d: "fst (dispatch a m) =
          (if isFinalizingStatus (status (heap m ! a))
           then Some (IsFinalizing (cid (heap m ! a)) (status (heap m ! a))) else None)"
    if "current (heap m ! a) = None" "queue (heap m ! a) = OpTask n operation opts # rest"
    for n operation opts rest
    using dispatch_refused(2) [OF len that] dispatch_admitted(2) [OF len that] by simp
  show "(\<forall>fl. current (heap m ! a) = Some fl \<longrightarrow> unarmed (op_opts fl) \<longrightarrow>
           timer fl = None \<and> timer_fired a m = m \<and>
           (\<forall>r. settled fl = Some r \<longrightarrow> abort_or_work r)) \<and>
     (\<forall>x \<in> set (ended (heap m ! a)). unarmed (fst (snd x)) \<longrightarrow>
        (abort_or_work (snd (snd x)) \<or> refused_by_run (snd (snd x))) \<and>
        no_timeout (snd (snd x))) \<and>
     (\<forall>n operation opts rest.
        current (heap m ! a) = None \<longrightarrow>
        queue (heap m ! a) = OpTask n operation opts # rest \<longrightarrow>
        fst (dispatch a m) =
          (if isFinalizingStatus (status (heap m ! a))
           then Some (IsFinalizing (cid (heap m ! a)) (status (heap m ! a))) else None))"
    using t e' d by blast
qed

text \<open>Operations with timeouts 0, \<open>-5\<close>, \<^verbatim>\<open>Infinity\<close> and \<^verbatim>\<open>NaN\<close> on container \<open>a\<close>: the first
  has failed in its work, the second is in flight, and a timer event has happened
  since.\<close>

definition untimed_state :: manager where
  "untimed_state =
     exec [CallSpawn (demo_spawn ''a''), ResumeSpawn 0 (Constructed demo_runtime),
           CallExecute ''a'' (with_timeout (Fin 0)), CallExecute ''a'' (with_timeout (Fin (- 5))),
           CallRunFile ''a'' (with_timeout PosInf), CallInstall ''a'' (with_timeout NaN),
           Dispatch 0, TimerFired 0, WorkDone 0 0 (Inl ''boom''), ResumeRun 0,
           Dispatch 0, TimerFired 0]
       (new_manager demo_options)"

lemma untimed_state_facts:
  "length (heap untimed_state) = 1"
  "map (\<lambda>x. (fst x, timeoutMs (fst (snd x)), snd (snd x))) (ended (heap untimed_state ! 0)) =
     [(0, Some (Fin 0), Inl (WorkError ''boom''))]"
  "map_option (\<lambda>fl. (op_ticket fl, timeoutMs (op_opts fl), timer fl, settled fl))
     (current (heap untimed_state ! 0)) = Some (1, Some (Fin (- 5)), None, None)"
  unfolding untimed_state_def by code_simp+

lemma unarmed_examples:
  "unarmed (with_timeout (Fin 0))" "unarmed (with_timeout (Fin (- 5)))"
  "unarmed (with_timeout PosInf)" "unarmed (with_timeout NegInf)" "unarmed (with_timeout NaN)"
  "\<not> unarmed (with_timeout (Fin 25))"
  by (simp_all add: unarmed_def with_timeout_def js_gt_def)

text \<open>An operation with \<^verbatim>\<open>timeoutMs = 0\<close> was submitted to the ready container \<open>a\<close>, and
  \<^verbatim>\<open>terminate\<close> was called before the promise job of the operation ran.\<close>

definition refusing_state :: manager where
  "refusing_state =
     exec [CallSpawn (demo_spawn ''a''), ResumeSpawn 0 (Constructed demo_runtime),
           CallExecute ''a'' (with_timeout (Fin 0)), CallTerminate ''a'']
       (new_manager demo_options)"

lemma refusing_state_facts:
  "length (heap refusing_state) = 1"
  "current (heap refusing_state ! 0) = None"
  "status (heap refusing_state ! 0) = Terminating"
  "cid (heap refusing_state ! 0) = ''a''"
  "queue (heap refusing_state ! 0) = [OpTask 0 Execute (with_timeout (Fin 0)), FinalizeTask]"
  "fst (dispatch 0 refusing_state) = Some (IsFinalizing ''a'' Terminating)"
  "ended (heap (snd (dispatch 0 refusing_state)) ! 0) =
     [(0, with_timeout (Fin 0), Inl (IsFinalizing ''a'' Terminating))]"
  unfolding refusing_state_def by code_simp+

theorem no_timer_no_timeout_witness:
  "0 < length (heap untimed_state) \<and>
   current (heap untimed_state ! 0) \<noteq> None \<and>
   unarmed (op_opts (the (current (heap untimed_state ! 0)))) \<and>
   timer (the (current (heap untimed_state ! 0))) = None \<and>
   timer_fired 0 untimed_state = untimed_state \<and>
   ended (heap untimed_state ! 0) \<noteq> [] \<and>
   unarmed (fst (snd (hd (ended (heap untimed_state ! 0))))) \<and>
   abort_or_work (snd (snd (hd (ended (heap untimed_state ! 0))))) \<and>
   no_timeout (snd (snd (hd (ended (heap untimed_state ! 0))))) \<and>
   current (heap refusing_state ! 0) = None \<and>
   status (heap refusing_state ! 0) = Terminating \<and>
   hd (queue (heap refusing_state ! 0)) = OpTask 0 Execute (with_timeout (Fin 0)) \<and>
   fst (dispatch 0 refusing_state) = Some (IsFinalizing ''a'' Terminating) \<and>
   unarmed (fst (snd (hd (ended (heap (snd (dispatch 0 refusing_state)) ! 0))))) \<and>
   refused_by_run (snd (snd (hd (ended (heap (snd (dispatch 0 refusing_state)) ! 0)))))"
proof -
  obtain fl where fl: "current (heap untimed_state ! 0) = Some fl"
    using untimed_state_facts(3) by (cases "current (heap untimed_state ! 0)") auto
  have u: "unarmed (op_opts fl)"
    using untimed_state_facts(3) fl by (simp add: unarmed_def js_gt_def)
  obtain x where x: "ended (heap untimed_state ! 0) = [x]"
    using untimed_state_facts(2) by (cases "ended (heap untimed_state ! 0)") auto
  have ux: "unarmed (fst (snd x))"
    using untimed_state_facts(2) x by (simp add: unarmed_def js_gt_def)
  have wx: "abort_or_work (snd (snd x))"
    using untimed_state_facts(2) x by (simp add: abort_or_work_def)
  have len: "0 < length (heap untimed_state)"
    by (simp add: untimed_state_facts)
  note inst = no_timer_no_timeout [of "[CallSpawn (demo_spawn ''a''),
      ResumeSpawn 0 (Constructed demo_runtime),
      CallExecute ''a'' (with_timeout (Fin 0)), CallExecute ''a'' (with_timeout (Fin (- 5))),
      CallRunFile ''a'' (with_timeout PosInf), CallInstall ''a'' (with_timeout NaN),
      Dispatch 0, TimerFired 0, WorkDone 0 0 (Inl ''boom''), ResumeRun 0,
      Dispatch 0, TimerFired 0]" demo_options, folded untimed_state_def]
  have "timer fl = None \<and> timer_fired 0 untimed_state = untimed_state"
    using inst len fl u by blast
  moreover have "no_timeout (snd (snd x))"
    using inst len x ux by auto
  ultimately have first: "0 < length (heap untimed_state) \<and>
   current (heap untimed_state ! 0) \<noteq> None \<and>
   unarmed (op_opts (the (current (heap untimed_state ! 0)))) \<and>
   timer (the (current (heap untimed_state ! 0))) = None \<and>
   timer_fired 0 untimed_state = untimed_state \<and>
   ended (heap untimed_state ! 0) \<noteq> [] \<and>
   unarmed (fst (snd (hd (ended (heap untimed_state ! 0))))) \<and>
   abort_or_work (snd (snd (hd (ended (heap untimed_state ! 0))))) \<and>
   no_timeout (snd (snd (hd (ended (heap untimed_state ! 0)))))"
    using len fl u x ux wx by simp
  note inst2 = no_timer_no_timeout [of "[CallSpawn (demo_spawn ''a''),
      ResumeSpawn 0 (Constructed demo_runtime),
      CallExecute ''a'' (with_timeout (Fin 0)), CallTerminate ''a'']" demo_options,
      folded refusing_state_def]
  have len2: "0 < length (heap refusing_state)"
    by (simp add: refusing_state_facts)
  have "fst (dispatch 0 refusing_state) =
      (if isFinalizingStatus (status (heap refusing_state ! 0))
       then Some (IsFinalizing (cid (heap refusing_state ! 0)) (status (heap refusing_state ! 0)))
       else None)"
    using inst2 len2 refusing_state_facts(2,5) by blast
  then have d: "fst (dispatch 0 refusing_state) = Some (IsFinalizing ''a'' Terminating)"
    by (simp add: refusing_state_facts(3,4) isFinalizingStatus_def)
  show ?thesis
    using first d
    by (simp add: refusing_state_facts(2,3,5,7) unarmed_examples refused_by_run_def)
qed

text \<open>The claim as stated fails: the operation has no timer, and it fails with the
  finalizing error of \<^verbatim>\<open>run\<close>, which is neither an abort nor an error of its work.\<close>

theorem untimed_operation_is_refused:
  "unarmed (with_timeout (Fin 0)) \<and>
   queue (heap refusing_state ! 0) = [OpTask 0 Execute (with_timeout (Fin 0)), FinalizeTask] \<and>
   fst (dispatch 0 refusing_state) = Some (IsFinalizing ''a'' Terminating) \<and>
   ended (heap (snd (dispatch 0 refusing_state)) ! 0) =
     [(0, with_timeout (Fin 0), Inl (IsFinalizing ''a'' Terminating))] \<and>
   \<not> abort_or_work (Inl (IsFinalizing ''a'' Terminating))"
  by (simp add: refusing_state_facts unarmed_examples abort_or_work_def)

subsection \<open>C3: a timeout unblocks the caller and releases the slot\<close>

lemma entered_fields:
  "cid (entered fl n c) = cid c"
  "queue (entered fl n c) = queue c"
  "current (entered fl n c) = Some fl"
  "completed (entered fl n c) = completed c"
  "runtime (entered fl n c) = runtime c"
  "npm (entered fl n c) = npm c"
  "status (entered fl n c) = status c"
  "working (entered fl n c) = (if settled fl = None then working c @ [n] else working c)"
  by (simp_all add: entered_def)

lemma runWithControls_armed:
  assumes "case signal options of Some sg \<Rightarrow> sg \<notin> set (abortedSignals m) | None \<Rightarrow> True"
    and "task_guard operation c = None"
    and "(case timeoutMs options of Some x \<Rightarrow> x | None \<Rightarrow> defaultExecutionTimeoutMs m) = Fin d"
    and "0 < d"
  shows "timer (runWithControls m c n operation options t) = Some d"
    and "settled (runWithControls m c n operation options t) = None"
  using assms
  by (auto simp: runWithControls_def Let_def js_gt_def split: option.splits)

lemma resumed_more_fields:
  "runtime (resumed fl r t t' c) = runtime c"
  "npm (resumed fl r t t' c) = npm c"
  by (simp_all add: resumed_def Let_def set_status_fields split: sum.splits)

text \<open>
  C3. If the work of a managed operation has not settled when its timeout elapses,
  the operation fails with a timeout error that carries the configured duration,
  the caller is unblocked while the work is not interrupted, and the slot of the
  container is released. Here the chain of the object at \<open>a\<close> is free, its next task
  is an operation whose configured timeout (\<^verbatim>\<open>options.timeoutMs ?? defaultExecutionTimeoutMs\<close>)
  is the finite positive number \<open>d\<close>, its signal has not fired and its task starts
  its work. The operation is dispatched, then its timer fires, then \<^verbatim>\<open>run\<close> resumes.
  Then: the caller gets \<^verbatim>\<open>OperationTimeoutError\<close> with \<^verbatim>\<open>timeoutMs = d\<close>; the work of
  the operation was started and is still running afterwards, and the runtime is
  the same; no operation is in flight on the object, the rest of the queue waits,
  one more task of the chain has settled; and a next operation of the queue, if
  there is one, is started by the next promise job of the chain.
\<close>

theorem timeout_releases_slot:
  fixes a n operation options rest m
  assumes len: "a < length (heap m)"
    and cur: "current (heap m ! a) = None"
    and que: "queue (heap m ! a) = OpTask n operation options # rest"
    and sta: "\<not> isFinalizingStatus (status (heap m ! a))"
    and sig: "case signal options of Some sg \<Rightarrow> sg \<notin> set (abortedSignals m) | None \<Rightarrow> True"
    and grd: "task_guard operation (heap m ! a) = None"
    and tmo: "(case timeoutMs options of Some x \<Rightarrow> x
               | None \<Rightarrow> defaultExecutionTimeoutMs m) = Fin d"
    and pos: "0 < d"
  defines "m1 \<equiv> snd (dispatch a m)"
  defines "m2 \<equiv> timer_fired a m1"
  defines "m3 \<equiv> snd (run_resume a m2)"
  shows "fst (run_resume a m2) =
           Some (Inl (OperationTimeoutError operation (cid (heap m ! a)) d)) \<and>
         working (heap m1 ! a) = working (heap m ! a) @ [n] \<and>
         working (heap m3 ! a) = working (heap m ! a) @ [n] \<and>
         runtime (heap m3 ! a) = runtime (heap m ! a) \<and>
         current (heap m3 ! a) = None \<and>
         queue (heap m3 ! a) = rest \<and>
         completed (heap m3 ! a) = Suc (completed (heap m ! a)) \<and>
         (\<forall>n' operation' options' rest'.
            rest = OpTask n' operation' options' # rest' \<longrightarrow>
            (\<exists>fl. current (heap (snd (dispatch a m3)) ! a) = Some fl \<and> op_ticket fl = n'))"
proof -
  define fl where
    "fl = runWithControls m (heap m ! a) n operation options (clock m (ticks m))"
  define c1 where "c1 = entered fl n
      (admit (clock m (ticks m)) (clock m (Suc (ticks m))) ((heap m ! a)\<lparr>queue := rest\<rparr>))"
  have flt: "timer fl = Some d" and fls: "settled fl = None"
    unfolding fl_def by (rule runWithControls_armed [OF sig grd tmo pos])+
  have flk: "op_kind fl = operation" "op_ticket fl = n"
    by (simp_all add: fl_def runWithControls_fields)
  have h1: "heap m1 = (heap m)[a := c1]"
    unfolding m1_def c1_def fl_def by (rule dispatch_admitted(1) [OF len cur que sta])
  have c1f: "current c1 = Some fl" "queue c1 = rest" "cid c1 = cid (heap m ! a)"
    "working c1 = working (heap m ! a) @ [n]" "completed c1 = completed (heap m ! a)"
    "runtime c1 = runtime (heap m ! a)" "status c1 = Busy"
    by (simp_all add: c1_def entered_fields admit_fields fls)
  define e where "e = OperationTimeoutError operation (cid (heap m ! a)) d"
  define c2 where "c2 = c1\<lparr>current := Some (settle (Inl e) fl)\<rparr>"
  have h2: "heap m2 = (heap m)[a := c2]"
    using len by (simp add: m2_def timer_fired_def upd_fields h1 c1f flt flk c2_def e_def)
  have len2: "a < length (heap m2)" using len by (simp add: h2)
  have cur2: "current (heap m2 ! a) = Some (settle (Inl e) fl)"
    using len by (simp add: h2 c2_def)
  have set2: "settled (settle (Inl e) fl) = Some (Inl e)"
    by (simp add: settle_fields fls)
  note rr = run_resume_settled [OF len2 cur2 set2]
  define c3 where "c3 = resumed (settle (Inl e) fl) (Inl e) (clock m2 (ticks m2))
      (clock m2 (Suc (ticks m2))) c2"
  have h3: "heap m3 = (heap m)[a := c3]"
    using len by (simp add: m3_def rr(2) h2 c3_def)
  have c3f: "current c3 = None" "queue c3 = rest" "working c3 = working (heap m ! a) @ [n]"
    "completed c3 = Suc (completed (heap m ! a))" "runtime c3 = runtime (heap m ! a)"
    "\<not> isFinalizingStatus (status c3)"
    by (simp_all add: c3_def resumed_fields resumed_more_fields c2_def c1f
        isFinalizingStatus_def)
  have len3: "a < length (heap m3)" using len by (simp add: h3)
  have next_op: "\<exists>fl'. current (heap (snd (dispatch a m3)) ! a) = Some fl' \<and> op_ticket fl' = n'"
    if r: "rest = OpTask n' operation' options' # rest'" for n' operation' options' rest'
  proof -
    have "current (heap m3 ! a) = None" "queue (heap m3 ! a) = OpTask n' operation' options' # rest'"
      "\<not> isFinalizingStatus (status (heap m3 ! a))"
      using len by (simp_all add: h3 c3f r)
    from dispatch_admitted(1) [OF len3 this]
    show ?thesis
      using len3 by (simp add: entered_fields runWithControls_fields)
  qed
  show ?thesis
    using len next_op by (simp add: rr(1) h1 h3 c1f c3f e_def)
qed

text \<open>Two operations wait on the ready container \<open>a\<close>: the first with a timeout
  of 25.\<close>

definition queued_state :: manager where
  "queued_state =
     exec [CallSpawn (demo_spawn ''a''), ResumeSpawn 0 (Constructed demo_runtime),
           CallExecute ''a'' (with_timeout (Fin 25)), CallRunFile ''a'' (with_timeout (Fin 0))]
       (new_manager demo_options)"

lemma queued_state_facts:
  "length (heap queued_state) = 1"
  "current (heap queued_state ! 0) = None"
  "queue (heap queued_state ! 0) =
     [OpTask 0 Execute (with_timeout (Fin 25)), OpTask 1 RunFile (with_timeout (Fin 0))]"
  "status (heap queued_state ! 0) = Ready"
  "task_guard Execute (heap queued_state ! 0) = None"
  "cid (heap queued_state ! 0) = ''a''"
  "working (heap queued_state ! 0) = []"
  unfolding queued_state_def by code_simp+

theorem timeout_releases_slot_witness:
  "fst (run_resume 0 (timer_fired 0 (snd (dispatch 0 queued_state)))) =
     Some (Inl (OperationTimeoutError Execute ''a'' 25)) \<and>
   working (heap (snd (run_resume 0 (timer_fired 0 (snd (dispatch 0 queued_state))))) ! 0) = [0] \<and>
   current (heap (snd (run_resume 0 (timer_fired 0 (snd (dispatch 0 queued_state))))) ! 0) = None \<and>
   queue (heap (snd (run_resume 0 (timer_fired 0 (snd (dispatch 0 queued_state))))) ! 0) =
     [OpTask 1 RunFile (with_timeout (Fin 0))] \<and>
   (\<exists>fl. current (heap (snd (dispatch 0
             (snd (run_resume 0 (timer_fired 0 (snd (dispatch 0 queued_state))))))) ! 0) = Some fl \<and>
         op_ticket fl = 1)"
proof -
  have h: "0 < length (heap queued_state)"
    "current (heap queued_state ! 0) = None"
    "queue (heap queued_state ! 0) =
       OpTask 0 Execute (with_timeout (Fin 25)) # [OpTask 1 RunFile (with_timeout (Fin 0))]"
    "\<not> isFinalizingStatus (status (heap queued_state ! 0))"
    "case signal (with_timeout (Fin 25)) of
       Some sg \<Rightarrow> sg \<notin> set (abortedSignals queued_state) | None \<Rightarrow> True"
    "task_guard Execute (heap queued_state ! 0) = None"
    "(case timeoutMs (with_timeout (Fin 25)) of Some x \<Rightarrow> x
      | None \<Rightarrow> defaultExecutionTimeoutMs queued_state) = Fin 25"
    "(0::real) < 25"
    by (simp_all add: queued_state_facts isFinalizingStatus_def with_timeout_def)
  show ?thesis
    using timeout_releases_slot [OF h] by (simp add: queued_state_facts)
qed

subsection \<open>C4: terminate\<close>

lemma terminate_alone_known:
  assumes wf: "wf m" and g: "containers_get m k \<noteq> None"
  shows "fst (terminate_alone k res m) = Some True \<and>
         containers_get (snd (terminate_alone k res m)) k = None \<and>
         k \<notin> info_id ` set (list_infos (snd (terminate_alone k res m)))"
proof -
  have reg: "registry_ok m" using wf by (simp add: wf_def)
  show ?thesis
  proof (cases rule: terminate_cases [of m k])
    case unknown
    then show ?thesis using g by simp
  next
    case (joined a)
    note l = registry_ok_lookup [OF reg joined(1)]
    note p = terminate_alone_pending [OF wf l(1) joined(2) l(2), of "fst (terminate k m)" res]
    have ta: "terminate_alone k res m =
        (terminate_result (fst (terminate k m)) (run_chain a res m), run_chain a res m)"
      by (simp add: terminate_alone_def Let_def joined(3) chain_of_def)
    show ?thesis
      using p absent_after_delete [of "run_chain a res m" k "containers m"] joined(1)
      by (simp add: ta joined(3))
  next
    case (stale a)
    have "wf (containers_delete k m)" by (rule wf_delete [OF wf])
    then show ?thesis
      using stale(1) absent_after_delete [of "containers_delete k m" k "containers m"]
      by (simp add: terminate_alone_def Let_def stale(3) chain_of_def terminate_result_def
          containers_delete_fields)
  next
    case (started a)
    note l = registry_ok_lookup [OF reg started(1)]
    define m1 where "m1 = snd (terminate k m)"
    have wf1: "wf m1" unfolding m1_def by (rule wf_terminate [OF wf])
    have h1: "heap m1 = (heap m)[a := terminating (clock m (ticks m)) (heap m ! a)]"
      and c1: "containers m1 = containers m"
      by (simp_all add: m1_def started)
    have len1: "a < length (heap m1)" using l(1) by (simp add: h1)
    have o1: "status (heap m1 ! a) = Terminating" "cid (heap m1 ! a) = k"
      "chained (heap m1 ! a) = Suc (chained (heap m ! a))"
      using l by (simp_all add: h1 terminating_def set_status_fields chained_def)
    have r1: "fst (terminate k m) = TTask a (chained (heap m1 ! a))"
      by (simp add: started(3) o1)
    note p = terminate_alone_pending [OF wf1 len1 o1(1,2), of "fst (terminate k m)" res]
    have ta: "terminate_alone k res m =
        (terminate_result (fst (terminate k m)) (run_chain a res m1), run_chain a res m1)"
      by (simp add: terminate_alone_def Let_def case_prod_beta started(3) chain_of_def m1_def)
    show ?thesis
      using p r1 absent_after_delete [of "run_chain a res m1" k "containers m1"] started(1)
      by (simp add: ta)
  qed
qed

lemma terminate_unknown:
  assumes "containers_get m k = None"
  shows "terminate k m = (TDone False, m)" "terminate_alone k res m = (Some False, m)"
  using assms
  by (simp_all add: terminate_def terminate_alone_def Let_def chain_of_def terminate_result_def)

text \<open>
  C4 (as amended). \<^verbatim>\<open>terminate(id)\<close> on an id absent from the registry resolves to false
  at once and changes nothing (the model of \<^verbatim>\<open>terminate\<close> has no error to throw). On an
  id present in the registry, in any state \<open>m\<close> the manager reaches:

  \<^item> when after the call the chain of the container runs (the operation in flight, if
    there is one, settles with any outcome \<open>res\<close> of its work, and every waiting task
    gets its promise job), the call resolves to true, and the id is absent from the
    registry and from \<^verbatim>\<open>list()\<close>;

  \<^item> in any continuation \<open>es'\<close> of the run, with any calls and continuations
    interleaved, during which no container is created under the id: the call is still
    pending, or it has resolved to true and the id is absent from the registry and
    from \<^verbatim>\<open>list()\<close>.
\<close>

theorem terminate_removes_container:
  fixes es options k res es'
  defines "m \<equiv> exec es (new_manager options)"
  defines "m' \<equiv> exec es' (snd (terminate k m))"
  shows "(containers_get m k = None \<longrightarrow>
            terminate k m = (TDone False, m) \<and> terminate_alone k res m = (Some False, m)) \<and>
         (containers_get m k \<noteq> None \<longrightarrow>
            fst (terminate_alone k res m) = Some True \<and>
            containers_get (snd (terminate_alone k res m)) k = None \<and>
            k \<notin> info_id ` set (list_infos (snd (terminate_alone k res m))) \<and>
            (creations k (events m') = creations k (events (snd (terminate k m))) \<longrightarrow>
               terminate_result (fst (terminate k m)) m' = None \<or>
               terminate_result (fst (terminate k m)) m' = Some True \<and>
               containers_get m' k = None \<and>
               k \<notin> info_id ` set (list_infos m')))"
proof -
  have wf: "wf m" unfolding m_def by (rule wf_reachable)
  have unknown: "terminate k m = (TDone False, m) \<and> terminate_alone k res m = (Some False, m)"
    if "containers_get m k = None"
    using terminate_unknown [OF that] by simp
  have alone: "fst (terminate_alone k res m) = Some True \<and>
      containers_get (snd (terminate_alone k res m)) k = None \<and>
      k \<notin> info_id ` set (list_infos (snd (terminate_alone k res m)))"
    if "containers_get m k \<noteq> None"
    by (rule terminate_alone_known [OF wf that])
  have any: "terminate_result (fst (terminate k m)) m' = None \<or>
      terminate_result (fst (terminate k m)) m' = Some True \<and>
      containers_get m' k = None \<and> k \<notin> info_id ` set (list_infos m')"
    if "containers_get m k \<noteq> None"
      "creations k (events m') = creations k (events (snd (terminate k m)))"
    using that unfolding m'_def by (rule terminate_resolved [OF wf])
  show ?thesis
  proof (rule conjI; rule impI)
    assume "containers_get m k = None"
    then show "terminate k m = (TDone False, m) \<and> terminate_alone k res m = (Some False, m)"
      by (rule unknown)
  next
    assume g: "containers_get m k \<noteq> None"
    have "creations k (events m') = creations k (events (snd (terminate k m))) \<longrightarrow>
      terminate_result (fst (terminate k m)) m' = None \<or>
      terminate_result (fst (terminate k m)) m' = Some True \<and>
      containers_get m' k = None \<and> k \<notin> info_id ` set (list_infos m')"
      using any [OF g] by (rule impI)
    with alone [OF g]
    show "fst (terminate_alone k res m) = Some True \<and>
      containers_get (snd (terminate_alone k res m)) k = None \<and>
      k \<notin> info_id ` set (list_infos (snd (terminate_alone k res m))) \<and>
      (creations k (events m') = creations k (events (snd (terminate k m))) \<longrightarrow>
         terminate_result (fst (terminate k m)) m' = None \<or>
         terminate_result (fst (terminate k m)) m' = Some True \<and>
         containers_get m' k = None \<and> k \<notin> info_id ` set (list_infos m'))"
      by simp
  qed
qed

lemma busy_terminate_alone_facts:
  "containers busy_state = [(''a'', 0)]"
  "fst (terminate_alone ''a'' (Inr ''done'') busy_state) = Some True"
  "containers (snd (terminate_alone ''a'' (Inr ''done'') busy_state)) = []"
  "map status (heap (snd (terminate_alone ''a'' (Inr ''done'') busy_state))) = [Terminated]"
  "map (\<lambda>c. map (\<lambda>x. (fst x, snd (snd x))) (ended c))
     (heap (snd (terminate_alone ''a'' (Inr ''done'') busy_state))) =
     [[(0, Inr ''done''), (1, Inl (IsFinalizing ''a'' Terminating))]]"
  unfolding busy_state_def by code_simp+

text \<open>\<^verbatim>\<open>terminate\<close> was called on the busy container \<open>a\<close>; then a container \<open>b\<close> was spawned,
  the work of the operation in flight finished, and the chain of \<open>a\<close> ran.\<close>

definition terminated_state :: manager where
  "terminated_state =
     exec [CallSpawn (demo_spawn ''b''), WorkDone 0 0 (Inr ''done''), ResumeRun 0,
           ResumeSpawn 1 (Constructed demo_runtime), Dispatch 0, Dispatch 0]
       (snd (terminate ''a'' busy_state))"

lemma terminated_state_facts:
  "fst (terminate ''a'' busy_state) = TTask 0 3"
  "creations ''a'' (events (snd (terminate ''a'' busy_state))) = 1"
  "creations ''a'' (events terminated_state) = 1"
  "terminate_result (TTask 0 3) terminated_state = Some True"
  "containers terminated_state = [(''b'', 1)]"
  unfolding terminated_state_def busy_state_def by code_simp+

theorem terminate_removes_container_witness:
  "containers_get busy_state ''a'' \<noteq> None \<and>
   fst (terminate_alone ''a'' (Inr ''done'') busy_state) = Some True \<and>
   containers_get (snd (terminate_alone ''a'' (Inr ''done'') busy_state)) ''a'' = None \<and>
   list_infos (snd (terminate_alone ''a'' (Inr ''done'') busy_state)) = [] \<and>
   creations ''a'' (events terminated_state) =
     creations ''a'' (events (snd (terminate ''a'' busy_state))) \<and>
   terminate_result (fst (terminate ''a'' busy_state)) terminated_state = Some True \<and>
   containers_get terminated_state ''a'' = None \<and>
   ''a'' \<notin> info_id ` set (list_infos terminated_state) \<and>
   containers_get busy_state ''zz'' = None \<and>
   terminate ''zz'' busy_state = (TDone False, busy_state)"
proof -
  note inst = terminate_removes_container [of "[CallSpawn (demo_spawn ''a''),
      ResumeSpawn 0 (Constructed demo_runtime),
      CallExecute ''a'' (with_timeout (Fin 25)), CallRunFile ''a'' (with_timeout (Fin 0)),
      Dispatch 0]" demo_options, folded busy_state_def]
  have a: "containers_get busy_state ''a'' \<noteq> None"
    and z: "containers_get busy_state ''zz'' = None"
    by (simp_all add: containers_get_def busy_terminate_alone_facts)
  have "fst (terminate_alone ''a'' (Inr ''done'') busy_state) = Some True \<and>
        containers_get (snd (terminate_alone ''a'' (Inr ''done'') busy_state)) ''a'' = None"
    using inst [of "''a''" "Inr ''done''"] a by blast
  moreover have "terminate ''zz'' busy_state = (TDone False, busy_state)"
    using inst [of "''zz''" "Inr ''done''"] z by blast
  moreover have cr: "creations ''a'' (events terminated_state) =
      creations ''a'' (events (snd (terminate ''a'' busy_state)))"
    by (simp add: terminated_state_facts)
  moreover have "containers_get terminated_state ''a'' = None \<and>
      ''a'' \<notin> info_id ` set (list_infos terminated_state)"
    using inst [of "''a''" "Inr ''done''" "[CallSpawn (demo_spawn ''b''),
        WorkDone 0 0 (Inr ''done''), ResumeRun 0,
        ResumeSpawn 1 (Constructed demo_runtime), Dispatch 0, Dispatch 0]",
        folded terminated_state_def] a cr
    by (simp add: terminated_state_facts)
  ultimately show ?thesis
    using a z by (simp add: list_infos_def busy_terminate_alone_facts terminated_state_facts)
qed

text \<open>\<^verbatim>\<open>terminate\<close> was called on the ready container \<open>a\<close>, its \<^verbatim>\<open>finalize\<close> task ran, and
  before the caller resumed a container was spawned under the same id.\<close>

definition respawned_state :: manager where
  "respawned_state =
     exec [Dispatch 0, CallSpawn (demo_spawn ''a'')] (snd (terminate ''a'' ready_state))"

text \<open>An operation without a timer is in flight on container \<open>a\<close>, and \<^verbatim>\<open>terminate\<close> is
  called.\<close>

definition untimed_busy_state :: manager where
  "untimed_busy_state =
     exec [CallSpawn (demo_spawn ''a''), ResumeSpawn 0 (Constructed demo_runtime),
           CallExecute ''a'' (with_timeout (Fin 0)), Dispatch 0]
       (new_manager demo_options)"

definition waiting_state :: manager where
  "waiting_state = snd (terminate ''a'' untimed_busy_state)"

lemma respawned_state_facts:
  "fst (terminate ''a'' ready_state) = TTask 0 1"
  "terminate_result (TTask 0 1) respawned_state = Some True"
  "containers respawned_state = [(''a'', 1)]"
  "map info_id (list_infos respawned_state) = [''a'']"
  unfolding respawned_state_def ready_state_def by code_simp+

lemma waiting_state_facts:
  "containers untimed_busy_state = [(''a'', 0)]"
  "fst (terminate ''a'' untimed_busy_state) = TTask 0 2"
  "terminate_result (TTask 0 2) waiting_state = None"
  "containers waiting_state = [(''a'', 0)]"
  "status (heap waiting_state ! 0) = Terminating"
  "map_option (\<lambda>fl. (timer fl, settled fl)) (current (heap waiting_state ! 0)) =
     Some (None, None)"
  unfolding waiting_state_def untimed_busy_state_def by code_simp+

text \<open>
  The claim as stated fails, in two ways. After the respawn the call on the known id
  \<open>a\<close> has resolved to true and \<open>a\<close> is in the registry and in \<^verbatim>\<open>list()\<close>. And in
  \<open>waiting_state\<close> the call on the known id \<open>a\<close> has not resolved and \<open>a\<close> is in the
  registry, in status \<^verbatim>\<open>terminating\<close>; no promise job, no timer and no continuation of
  \<^verbatim>\<open>run\<close> changes this state: the call resolves only if the work of the operation
  finishes.
\<close>

theorem terminate_respawned_or_waiting:
  "containers_get ready_state ''a'' = Some 0 \<and>
   fst (terminate ''a'' ready_state) = TTask 0 1 \<and>
   terminate_result (TTask 0 1) respawned_state = Some True \<and>
   containers_get respawned_state ''a'' = Some 1 \<and>
   map info_id (list_infos respawned_state) = [''a''] \<and>
   containers_get untimed_busy_state ''a'' = Some 0 \<and>
   fst (terminate ''a'' untimed_busy_state) = TTask 0 2 \<and>
   terminate_result (TTask 0 2) waiting_state = None \<and>
   containers_get waiting_state ''a'' = Some 0 \<and>
   status (heap waiting_state ! 0) = Terminating \<and>
   dispatch 0 waiting_state = (None, waiting_state) \<and>
   timer_fired 0 waiting_state = waiting_state \<and>
   run_resume 0 waiting_state = (None, waiting_state)"
proof -
  obtain fl where fl: "current (heap waiting_state ! 0) = Some fl"
    "timer fl = None" "settled fl = None"
    using waiting_state_facts(6) by (cases "current (heap waiting_state ! 0)") auto
  have "dispatch 0 waiting_state = (None, waiting_state)"
    by (rule dispatch_idle) (simp add: fl)
  moreover have "timer_fired 0 waiting_state = waiting_state"
    by (rule timer_fired_unarmed [OF fl(1,2)])
  moreover have "run_resume 0 waiting_state = (None, waiting_state)"
    by (rule run_resume_idle) (simp add: fl)
  ultimately show ?thesis
    by (simp add: respawned_state_facts waiting_state_facts ready_state_facts
        containers_get_def del: One_nat_def)
qed

subsection \<open>C6: the idle sweep\<close>













end
